theory Spec2Isabelle
  imports Main "HOL-Library.Sublist"
begin

section \<open>Python strings and paths\<close>

text \<open>
  \<^verbatim>\<open>str.endswith\<close> with a tuple of suffixes: true when the string ends with one of them.
  The comparison is on characters, hence case-sensitive.
\<close>

definition endswith :: "string \<Rightarrow> string list \<Rightarrow> bool" where
  "endswith s sufs = list_ex (\<lambda>suf. suffix suf s) sufs"

text \<open>The tuple of line 40 of split\_video.py and line 145 of transcribe.py.\<close>

definition video_exts :: "string list" where
  "video_exts = [''.mp4'', ''.avi'', ''.mov'', ''.mkv'']"

text \<open>\<^verbatim>\<open>str.rfind\<close> for one character: the last index of the character, or -1.\<close>

fun rfind :: "string \<Rightarrow> char \<Rightarrow> int" where
  "rfind [] c = - 1"
| "rfind (x # xs) c =
     (let r = rfind xs c in if 0 \<le> r then r + 1 else if x = c then 0 else - 1)"

text \<open>
  \<^verbatim>\<open>os.path.splitext\<close> (posixpath): the extension starts at the last dot of the last
  component, unless that component has only dots before it.
\<close>

definition splitext :: "string \<Rightarrow> string \<times> string" where
  "splitext p =
     (let sepIndex = rfind p CHR ''/''; dotIndex = rfind p CHR ''.''
      in if sepIndex < dotIndex \<and>
            list_ex (\<lambda>k. p ! k \<noteq> CHR ''.'') [nat (sepIndex + 1)..<nat dotIndex]
         then (take (nat dotIndex) p, drop (nat dotIndex) p)
         else (p, ''''))"

text \<open>\<^verbatim>\<open>str(n)\<close> for a non-negative integer, and \<^verbatim>\<open>str.zfill\<close> on such a text.\<close>

definition digit_char :: "nat \<Rightarrow> char" where
  "digit_char d = ''0123456789'' ! d"

fun str_nat :: "nat \<Rightarrow> string" where
  "str_nat n = (if n < 10 then [digit_char n] else str_nat (n div 10) @ [digit_char (n mod 10)])"

declare str_nat.simps [simp del]

definition zfill :: "nat \<Rightarrow> string \<Rightarrow> string" where
  "zfill width s = replicate (width - length s) CHR ''0'' @ s"

text \<open>\<^verbatim>\<open>str.lower\<close> on ASCII text; used only to state what a case-insensitive match is.\<close>

definition lower_char :: "char \<Rightarrow> char" where
  "lower_char c =
     (let n = (of_char c :: nat) in if 65 \<le> n \<and> n \<le> 90 then char_of (n + 32) else c)"

definition lower :: "string \<Rightarrow> string" where
  "lower s = map lower_char s"

text \<open>
  A path is the list of its components, relative to the working directory;
  \<^verbatim>\<open>os.path.join(a, b)\<close> is \<open>a @ [b]\<close>. \<open>path_str\<close> is the text of a path, as it is
  written into a ledger cell.
\<close>

type_synonym path = "string list"

fun path_str :: "path \<Rightarrow> string" where
  "path_str [] = ''''"
| "path_str [x] = x"
| "path_str (x # y # ys) = x @ ''/'' @ path_str (y # ys)"

section \<open>The file system, the effect log and exceptions\<close>

datatype error =
    TypeError
  | StopIteration
  | IndexError
  | FileNotFoundError
  | FileExistsError
  | NotADirectoryError
  | IsADirectoryError
  | UnicodeDecodeError
  | ExternalError string

text \<open>
  A CSV file is kept as the rows \<^verbatim>\<open>csv.reader\<close> yields from it; images, clips and audio
  files are opaque.
\<close>

datatype node = Dir | CsvFile "string list list" | MediaFile

type_synonym filesystem = "path \<rightharpoonup> node"

text \<open>
  The log records every effect in the order the program performs it. Artifacts and
  ledger rows carry the name of the video file that is being handled at that moment.
\<close>

datatype event =
    Makedirs path
  | Rmtree path
  | OpenedWrite path
  | HeaderRow "string list"
  | Started string
  | Artifact string path
  | Transcribed string path
  | LedgerRow string "string list"

record state =
  fs :: filesystem
  trace :: "event list"

datatype 'a result = Ok 'a state | Raise error state

fun final :: "'a result \<Rightarrow> state" where
  "final (Ok x s) = s"
| "final (Raise e s) = s"

definition then_do :: "(state \<Rightarrow> 'a result) \<Rightarrow> ('a \<Rightarrow> state \<Rightarrow> 'b result) \<Rightarrow> state \<Rightarrow> 'b result" where
  "then_do m k s = (case m s of Ok x s' \<Rightarrow> k x s' | Raise e s' \<Rightarrow> Raise e s')"

definition emit :: "event \<Rightarrow> state \<Rightarrow> unit result" where
  "emit ev s = Ok () (s\<lparr>trace := trace s @ [ev]\<rparr>)"

definition from_world :: "error + 'a \<Rightarrow> state \<Rightarrow> 'a result" where
  "from_world r s = (case r of Inl e \<Rightarrow> Raise e s | Inr x \<Rightarrow> Ok x s)"

text \<open>A \<^verbatim>\<open>for\<close> loop whose body has effects only.\<close>

fun for_each :: "('a \<Rightarrow> state \<Rightarrow> unit result) \<Rightarrow> 'a list \<Rightarrow> state \<Rightarrow> unit result" where
  "for_each body [] s = Ok () s"
| "for_each body (x # xs) s =
     (case body x s of Ok u s' \<Rightarrow> for_each body xs s' | Raise e s' \<Rightarrow> Raise e s')"

subsection \<open>os and shutil\<close>

definition path_exists :: "path \<Rightarrow> state \<Rightarrow> bool" where
  "path_exists p s = (fs s p \<noteq> None)"

text \<open>
  What opening or creating \<open>p\<close> needs of its parent directory. The working directory
  (the parent of a one-component path) always exists; the empty path names nothing.
\<close>

definition parent_check :: "filesystem \<Rightarrow> path \<Rightarrow> error option" where
  "parent_check f p =
     (if p = [] then Some FileNotFoundError
      else if butlast p = [] then None
      else case f (butlast p) of
             None \<Rightarrow> Some FileNotFoundError
           | Some Dir \<Rightarrow> None
           | Some _ \<Rightarrow> Some NotADirectoryError)"

text \<open>
  \<^verbatim>\<open>os.makedirs(name, exist_ok=...)\<close>: creates the directory and its missing ancestors.
  An existing directory is accepted only with \<^verbatim>\<open>exist_ok\<close>; an existing file at the
  name, or on the way to it, is an error and nothing is created.
\<close>

definition makedirs :: "path \<Rightarrow> bool \<Rightarrow> state \<Rightarrow> unit result" where
  "makedirs name exist_ok s =
     (if name = [] then Raise FileNotFoundError s
      else case fs s name of
          Some Dir \<Rightarrow> if exist_ok then Ok () s else Raise FileExistsError s
        | Some _ \<Rightarrow> Raise FileExistsError s
        | None \<Rightarrow>
            if list_ex (\<lambda>q. q \<noteq> [] \<and> fs s q \<noteq> None \<and> fs s q \<noteq> Some Dir) (prefixes name)
            then Raise NotADirectoryError s
            else Ok () (s\<lparr>fs := (\<lambda>q. if q \<noteq> [] \<and> prefix q name \<and> fs s q = None
                                       then Some Dir else fs s q),
                          trace := trace s @ [Makedirs name]\<rparr>))"

text \<open>\<^verbatim>\<open>shutil.rmtree\<close>: removes the directory and everything below it.\<close>

definition rmtree :: "path \<Rightarrow> state \<Rightarrow> unit result" where
  "rmtree p s =
     (case fs s p of
        None \<Rightarrow> Raise FileNotFoundError s
      | Some Dir \<Rightarrow> Ok () (s\<lparr>fs := (\<lambda>q. if prefix p q then None else fs s q),
                              trace := trace s @ [Rmtree p]\<rparr>)
      | Some _ \<Rightarrow> Raise NotADirectoryError s)"

subsection \<open>Files\<close>

text \<open>\<^verbatim>\<open>open(file, "w")\<close>: creates the file or empties it.\<close>

definition open_write :: "path \<Rightarrow> state \<Rightarrow> unit result" where
  "open_write p s =
     (case parent_check (fs s) p of
        Some e \<Rightarrow> Raise e s
      | None \<Rightarrow>
          (case fs s p of
             Some Dir \<Rightarrow> Raise IsADirectoryError s
           | _ \<Rightarrow> Ok () (s\<lparr>fs := (fs s)(p \<mapsto> CsvFile []), trace := trace s @ [OpenedWrite p]\<rparr>)))"

text \<open>\<^verbatim>\<open>open(file, "a")\<close>: creates the file when it is missing, keeps it otherwise.\<close>

definition open_append :: "path \<Rightarrow> state \<Rightarrow> unit result" where
  "open_append p s =
     (case parent_check (fs s) p of
        Some e \<Rightarrow> Raise e s
      | None \<Rightarrow>
          (case fs s p of
             Some Dir \<Rightarrow> Raise IsADirectoryError s
           | None \<Rightarrow> Ok () (s\<lparr>fs := (fs s)(p \<mapsto> CsvFile [])\<rparr>)
           | Some _ \<Rightarrow> Ok () s))"

text \<open>
  \<^verbatim>\<open>csv_writer.writerow(row)\<close> on a file opened for writing or appending: the row goes
  to the end of the file. The event constructor says which kind of row it is.
\<close>

definition writerow :: "(string list \<Rightarrow> event) \<Rightarrow> path \<Rightarrow> string list \<Rightarrow> state \<Rightarrow> unit result" where
  "writerow ev p row s =
     Ok () (s\<lparr>fs := (case fs s p of
                       Some (CsvFile rows) \<Rightarrow> (fs s)(p \<mapsto> CsvFile (rows @ [row]))
                     | None \<Rightarrow> (fs s)(p \<mapsto> CsvFile [row])
                     | Some _ \<Rightarrow> fs s),
             trace := trace s @ [ev row]\<rparr>)"

text \<open>\<^verbatim>\<open>open(file, "r")\<close> and \<^verbatim>\<open>csv.reader\<close>: all rows of the file.\<close>

definition read_rows :: "path \<Rightarrow> state \<Rightarrow> string list list result" where
  "read_rows p s =
     (case fs s p of
        None \<Rightarrow> Raise FileNotFoundError s
      | Some Dir \<Rightarrow> Raise IsADirectoryError s
      | Some MediaFile \<Rightarrow> Raise UnicodeDecodeError s
      | Some (CsvFile rows) \<Rightarrow> Ok rows s)"

text \<open>\<^verbatim>\<open>[row[0] for row in rows]\<close>: an empty row raises IndexError.\<close>

definition first_cells :: "string list list \<Rightarrow> state \<Rightarrow> string list result" where
  "first_cells rows s = (if [] \<in> set rows then Raise IndexError s else Ok (map hd rows) s)"

text \<open>A file written by one of the media libraries.\<close>

definition write_artifact :: "string \<Rightarrow> path \<Rightarrow> state \<Rightarrow> unit result" where
  "write_artifact video_file p s =
     (case parent_check (fs s) p of
        Some e \<Rightarrow> Raise e s
      | None \<Rightarrow>
          (case fs s p of
             Some Dir \<Rightarrow> Raise IsADirectoryError s
           | _ \<Rightarrow> Ok () (s\<lparr>fs := (fs s)(p \<mapsto> MediaFile),
                          trace := trace s @ [Artifact video_file p]\<rparr>)))"

section \<open>The external collaborators\<close>

text \<open>
  A timecode of the scene detector, kept as the two texts the scripts write from it:
  \<^verbatim>\<open>t.get_seconds()\<close> (a float, written by split\_video.py) and \<^verbatim>\<open>str(t)\<close>
  (written by transcribe.py).
\<close>

datatype timecode = FrameTimecode (get_seconds: string) (timecode_str: string)

text \<open>
  What the program cannot decide: the listing of the input folder, the scenes the
  detector finds in a video (in temporal order), the text the libraries put for
  \<^verbatim>\<open>$SCENE_NUMBER\<close> (from the number of scenes and the 1-based index of the scene),
  whether the audio of a clip of a video can be extracted, and the dictionary the
  speech recogniser returns for an audio file of a video.
\<close>

record world =
  listdir :: "path \<Rightarrow> error + string list"
  detect_scenes :: "path \<Rightarrow> error + (timecode \<times> timecode) list"
  scene_number :: "nat \<Rightarrow> nat \<Rightarrow> string"
  extract_audio :: "string \<Rightarrow> path \<Rightarrow> error option"
  transcriber :: "string \<Rightarrow> path \<Rightarrow> error + (string \<rightharpoonup> string)"

text \<open>The name the libraries put for \<^verbatim>\<open>$VIDEO_NAME\<close>: the file name up to its last dot.\<close>

definition get_file_name :: "string \<Rightarrow> string" where
  "get_file_name file =
     (let dot_position = rfind file CHR ''.''
      in if 0 < dot_position then take (nat dot_position) file else file)"

datatype template_part = Lit string | VIDEO_NAME | SCENE_NUMBER | IMAGE_NUMBER

fun substitute :: "template_part list \<Rightarrow> string \<Rightarrow> string \<Rightarrow> string \<Rightarrow> string" where
  "substitute [] v n i = []"
| "substitute (Lit t # ps) v n i = t @ substitute ps v n i"
| "substitute (VIDEO_NAME # ps) v n i = v @ substitute ps v n i"
| "substitute (SCENE_NUMBER # ps) v n i = n @ substitute ps v n i"
| "substitute (IMAGE_NUMBER # ps) v n i = i @ substitute ps v n i"

text \<open>
  \<^verbatim>\<open>save_images\<close> with \<^verbatim>\<open>num_images=1\<close>: one \<^verbatim>\<open>.jpg\<close> per scene, in scene order, the
  image number being \<^verbatim>\<open>01\<close>. \<^verbatim>\<open>split_video_ffmpeg\<close>: one clip per scene.
\<close>

definition save_images ::
  "world \<Rightarrow> string \<Rightarrow> (timecode \<times> timecode) list \<Rightarrow> template_part list \<Rightarrow> path \<Rightarrow> state \<Rightarrow> unit result" where
  "save_images w video_file scene_list image_name_template output_dir =
     for_each
       (\<lambda>(i, sc). write_artifact video_file
          (output_dir @ [substitute image_name_template (get_file_name video_file)
                           (scene_number w (length scene_list) (i + 1)) ''01'' @ ''.jpg'']))
       (List.enumerate 0 scene_list)"

definition split_video_ffmpeg ::
  "world \<Rightarrow> string \<Rightarrow> (timecode \<times> timecode) list \<Rightarrow> template_part list \<Rightarrow> path \<Rightarrow> state \<Rightarrow> unit result" where
  "split_video_ffmpeg w video_file scene_list output_file_template output_dir =
     for_each
       (\<lambda>(i, sc). write_artifact video_file
          (output_dir @ [substitute output_file_template (get_file_name video_file)
                           (scene_number w (length scene_list) (i + 1)) []]))
       (List.enumerate 0 scene_list)"

section \<open>split\_video.py\<close>

definition split_header :: "string list" where
  "split_header = [''video_name'', ''scene_number'', ''start_time'', ''end_time'']"

text \<open>\<^verbatim>\<open>next(reader)\<close> (line 29).\<close>

definition next_row :: "string list list \<Rightarrow> state \<Rightarrow> string list list result" where
  "next_row rows s = (case rows of [] \<Rightarrow> Raise StopIteration s | header # rest \<Rightarrow> Ok rest s)"

text \<open>The body of the loop over the listing (lines 37 to 77).\<close>

definition split_one ::
  "world \<Rightarrow> path \<Rightarrow> path \<Rightarrow> path \<Rightarrow> path \<Rightarrow> string set \<Rightarrow> string \<Rightarrow> state \<Rightarrow> unit result" where
  "split_one w input_folder images_output_folder video_output_folder csv_file processed_videos video_file =
     (let video_name = fst (splitext video_file);
          video_path = input_folder @ [video_file]
      in if \<not> endswith video_file video_exts \<or> video_name \<in> processed_videos
         then (\<lambda>s. Ok () s)
         else
           then_do (emit (Started video_file)) (\<lambda>u.
           then_do (from_world (detect_scenes w video_path)) (\<lambda>scene_list.
           then_do (save_images w video_file scene_list
                      [VIDEO_NAME, Lit ''-Scene-'', SCENE_NUMBER, Lit ''-'', IMAGE_NUMBER]
                      images_output_folder) (\<lambda>u.
           then_do (split_video_ffmpeg w video_file scene_list
                      [VIDEO_NAME, Lit ''-Scene-'', SCENE_NUMBER, Lit ''.mp4'']
                      video_output_folder) (\<lambda>u.
           then_do (open_append csv_file) (\<lambda>u.
           for_each
             (\<lambda>(idx, (start_time, end_time)).
                writerow (LedgerRow video_file) csv_file
                  [video_name, str_nat (idx + 1), get_seconds start_time, get_seconds end_time])
             (List.enumerate 0 scene_list)))))))"

definition split_video_scenes :: "world \<Rightarrow> path \<Rightarrow> path \<Rightarrow> path \<Rightarrow> state \<Rightarrow> unit result" where
  "split_video_scenes w input_folder output_folder csv_file =
     (let images_output_folder = output_folder @ [''images''];
          video_output_folder = output_folder @ [''videos'']
      in
        then_do (makedirs output_folder True) (\<lambda>u.
        then_do (makedirs images_output_folder True) (\<lambda>u.
        then_do (makedirs video_output_folder True) (\<lambda>u.
        then_do (\<lambda>s. if \<not> path_exists csv_file s
                      then then_do (open_write csv_file)
                             (\<lambda>u. writerow HeaderRow csv_file split_header) s
                      else Ok () s) (\<lambda>u.
        then_do (read_rows csv_file) (\<lambda>rows.
        then_do (next_row rows) (\<lambda>rest.
        then_do (first_cells rest) (\<lambda>cells.
        then_do (from_world (listdir w input_folder)) (\<lambda>vids.
        for_each
          (split_one w input_folder images_output_folder video_output_folder csv_file (set cells))
          vids)))))))))"

text \<open>
  A call with keyword arguments: a parameter without a default that gets no argument
  raises TypeError before the body runs. Line 80 is the call of the script.
\<close>

definition call_split_video_scenes :: "world \<Rightarrow> (string \<rightharpoonup> path) \<Rightarrow> state \<Rightarrow> unit result" where
  "call_split_video_scenes w kwargs s =
     (case kwargs ''input_folder'' of
        None \<Rightarrow> Raise TypeError s
      | Some input_folder \<Rightarrow>
          (case kwargs ''output_folder'' of
             None \<Rightarrow> Raise TypeError s
           | Some output_folder \<Rightarrow>
               (case kwargs ''csv_file'' of
                  None \<Rightarrow> Raise TypeError s
                | Some csv_file \<Rightarrow> split_video_scenes w input_folder output_folder csv_file s)))"

definition split_video_script :: "world \<Rightarrow> state \<Rightarrow> unit result" where
  "split_video_script w =
     call_split_video_scenes w
       [''input_folder'' \<mapsto> [''vids''], ''output_folder'' \<mapsto> [''vids-split'']]"

section \<open>transcribe.py\<close>

definition transcribe_header :: "string list" where
  "transcribe_header =
     [''video'', ''screen_nr'', ''scene'', ''image'', ''start_time'', ''end_time'', ''transcription'']"

text \<open>
  \<^verbatim>\<open>VideoFileClip(input)\<close> needs the clip; writing the audio track is the library's
  work and may fail.
\<close>

definition video_to_audio :: "world \<Rightarrow> string \<Rightarrow> path \<Rightarrow> path \<Rightarrow> state \<Rightarrow> unit result" where
  "video_to_audio w video_file input output s =
     (case fs s input of
        Some MediaFile \<Rightarrow>
          (case extract_audio w video_file input of
             Some e \<Rightarrow> Raise e s
           | None \<Rightarrow> write_artifact video_file output s)
      | Some Dir \<Rightarrow> Raise IsADirectoryError s
      | Some (CsvFile rows) \<Rightarrow> Raise (ExternalError ''VideoFileClip'') s
      | None \<Rightarrow> Raise FileNotFoundError s)"

definition init_folder :: "path \<Rightarrow> state \<Rightarrow> string list result" where
  "init_folder output_folder s =
     (let file = output_folder @ [''scenes.csv'']
      in if \<not> path_exists output_folder s
         then
           then_do (makedirs output_folder False) (\<lambda>u.
           then_do (makedirs (output_folder @ [''videos'']) False) (\<lambda>u.
           then_do (open_write file) (\<lambda>u.
           then_do (writerow HeaderRow file transcribe_header) (\<lambda>u.
           (\<lambda>s. Ok [] s))))) s
         else then_do (read_rows file) first_cells s)"

text \<open>The dictionary of a scene (lines 89 to 97), named by the variables it holds.\<close>

record scene =
  video :: string
  scene_nr :: string
  scene_path :: path
  image_path :: path
  audio_path :: path
  start_time :: timecode
  end_time :: timecode

definition video_dir_of :: "path \<Rightarrow> string \<Rightarrow> path" where
  "video_dir_of output_folder input_file =
     output_folder @ [''videos''] @ [fst (splitext input_file)]"

text \<open>Lines 58 to 61: the directory of the video is removed when it exists, then made anew.\<close>

definition fresh_dirs :: "path \<Rightarrow> state \<Rightarrow> unit result" where
  "fresh_dirs video_dir =
     (let scenes_dir = video_dir @ [''scenes''];
          audio_dir = video_dir @ [''audio''];
          images_dir = video_dir @ [''images'']
      in
        then_do (\<lambda>s. if path_exists video_dir s then rmtree video_dir s else Ok () s) (\<lambda>u.
        for_each (\<lambda>create_dir. makedirs create_dir False)
          [video_dir, scenes_dir, images_dir, audio_dir]))"

text \<open>
  \<^verbatim>\<open>scene_generator\<close> is a generator. What it does up to its loop (lines 44 to 76) runs
  when the first scene is asked for; each further scene runs one turn of its loop
  (lines 79 to 98).
\<close>

definition scene_generator_start ::
  "world \<Rightarrow> path \<Rightarrow> string \<Rightarrow> path \<Rightarrow> state \<Rightarrow> (timecode \<times> timecode) list result" where
  "scene_generator_start w input_folder input_file output_folder =
     (let input_path = input_folder @ [input_file];
          file_ext = snd (splitext input_file);
          video_dir = video_dir_of output_folder input_file;
          scenes_dir = video_dir @ [''scenes''];
          images_dir = video_dir @ [''images'']
      in
        then_do (from_world (detect_scenes w input_path)) (\<lambda>scene_list.
        then_do (fresh_dirs video_dir) (\<lambda>u.
        then_do (save_images w input_file scene_list [SCENE_NUMBER] images_dir) (\<lambda>u.
        then_do (split_video_ffmpeg w input_file scene_list [SCENE_NUMBER, Lit file_ext]
                   scenes_dir) (\<lambda>u.
        (\<lambda>s. Ok scene_list s))))))"

definition scene_generator_next ::
  "world \<Rightarrow> string \<Rightarrow> path \<Rightarrow> nat \<times> timecode \<times> timecode \<Rightarrow> state \<Rightarrow> scene result" where
  "scene_generator_next w input_file output_folder =
     (\<lambda>(i, (start_time, end_time)).
        let file_ext = snd (splitext input_file);
            video_dir = video_dir_of output_folder input_file;
            scene_nr = zfill 3 (str_nat (i + 1));
            scene_file = scene_nr @ file_ext;
            image_file = scene_nr @ ''.jpg'';
            audio_file = scene_nr @ ''.mp3'';
            scene_path = video_dir @ [''scenes''] @ [scene_file];
            image_path = video_dir @ [''images''] @ [image_file];
            audio_path = video_dir @ [''audio''] @ [audio_file]
        in
          then_do (video_to_audio w input_file scene_path audio_path) (\<lambda>u.
          (\<lambda>s. Ok \<lparr>video = input_file, scene_nr = scene_nr, scene_path = scene_path,
                    image_path = image_path, audio_path = audio_path,
                    start_time = start_time, end_time = end_time\<rparr> s)))"

text \<open>\<^verbatim>\<open>res.get("text", default)\<close>.\<close>

definition dict_get :: "(string \<rightharpoonup> string) \<Rightarrow> string \<Rightarrow> string \<Rightarrow> string" where
  "dict_get d k fallback = (case d k of None \<Rightarrow> fallback | Some v \<Rightarrow> v)"

text \<open>Lines 117 to 129: the row of one scene.\<close>

definition transcribe_scene :: "world \<Rightarrow> scene \<Rightarrow> state \<Rightarrow> string list result" where
  "transcribe_scene w sc =
     then_do (from_world (transcriber w (video sc) (audio_path sc))) (\<lambda>res.
     then_do (emit (Transcribed (video sc) (audio_path sc))) (\<lambda>u.
     (let transcription = dict_get res ''text'' ''NO TRANSCRIPTION FOUND''
      in (\<lambda>s. Ok [video sc, scene_nr sc, path_str (scene_path sc), path_str (image_path sc),
                   timecode_str (start_time sc), timecode_str (end_time sc), transcription] s))))"

text \<open>A \<^verbatim>\<open>for\<close> loop that appends one value per turn to a list.\<close>

fun accumulate :: "('a \<Rightarrow> state \<Rightarrow> 'b result) \<Rightarrow> 'a list \<Rightarrow> 'b list \<Rightarrow> state \<Rightarrow> 'b list result" where
  "accumulate body [] rows s = Ok rows s"
| "accumulate body (x # xs) rows s =
     (case body x s of
        Ok row s' \<Rightarrow> accumulate body xs (rows @ [row]) s'
      | Raise e s' \<Rightarrow> Raise e s')"

text \<open>The body of the loop of \<^verbatim>\<open>main\<close> over the input files (lines 110 to 132).\<close>

definition main_one :: "world \<Rightarrow> path \<Rightarrow> path \<Rightarrow> string \<Rightarrow> state \<Rightarrow> unit result" where
  "main_one w output_folder input_folder input_file =
     (let output_csv = output_folder @ [''scenes.csv'']
      in
        then_do (emit (Started input_file)) (\<lambda>u.
        then_do (scene_generator_start w input_folder input_file output_folder) (\<lambda>scene_list.
        then_do (accumulate
                   (\<lambda>x. then_do (scene_generator_next w input_file output_folder x)
                           (transcribe_scene w))
                   (List.enumerate 0 scene_list) []) (\<lambda>rows.
        for_each (writerow (LedgerRow input_file) output_csv) rows))))"

definition main :: "world \<Rightarrow> path \<Rightarrow> path \<Rightarrow> string list \<Rightarrow> state \<Rightarrow> unit result" where
  "main w output_folder input_folder input_files =
     then_do (open_append (output_folder @ [''scenes.csv''])) (\<lambda>u.
     for_each (main_one w output_folder input_folder) input_files)"

text \<open>The loop of lines 143 to 149.\<close>

fun scan :: "string list \<Rightarrow> string list \<Rightarrow> string list \<Rightarrow> string list" where
  "scan done todo [] = todo"
| "scan done todo (file # files) =
     (if \<not> endswith file video_exts then scan done todo files
      else if file \<in> set done then scan done todo files
      else scan done (todo @ [file]) files)"

definition transcribe_script :: "world \<Rightarrow> path \<Rightarrow> path \<Rightarrow> state \<Rightarrow> unit result" where
  "transcribe_script w folder output =
     then_do (init_folder output) (\<lambda>done.
     then_do (from_world (listdir w folder)) (\<lambda>files.
     main w output folder (scan done [] files)))"

section \<open>Notions used to state the properties\<close>

subsection \<open>Runs\<close>

text \<open>
  \<open>steps R m\<close>: whatever the state, and whether \<open>m\<close> returns or raises, the state it
  ends in is related by \<open>R\<close> to the state it started in.
\<close>

definition steps :: "(state \<Rightarrow> state \<Rightarrow> bool) \<Rightarrow> (state \<Rightarrow> 'a result) \<Rightarrow> bool" where
  "steps R m = (\<forall>s. R s (final (m s)))"

text \<open>The call returned; it did not raise.\<close>

definition returns :: "'a result \<Rightarrow> bool" where
  "returns r = (case r of Ok x s \<Rightarrow> True | Raise e s \<Rightarrow> False)"

text \<open>The log only grows, by events of one kind.\<close>

definition logs :: "(event \<Rightarrow> bool) \<Rightarrow> state \<Rightarrow> state \<Rightarrow> bool" where
  "logs P s s' = (\<exists>evs. trace s' = trace s @ evs \<and> list_all P evs)"

text \<open>The log only grows, and what is added satisfies \<open>Q\<close> as a whole.\<close>

definition grows :: "(event list \<Rightarrow> bool) \<Rightarrow> state \<Rightarrow> state \<Rightarrow> bool" where
  "grows Q s s' = (\<exists>evs. trace s' = trace s @ evs \<and> Q evs)"

subsection \<open>Reading the log\<close>

text \<open>The video files whose handling has begun, in order.\<close>

fun started :: "event list \<Rightarrow> string list" where
  "started [] = []"
| "started (Started f # evs) = f # started evs"
| "started (e # evs) = started evs"

text \<open>The video file an event belongs to; events of the setup belong to none.\<close>

fun about :: "event \<Rightarrow> string option" where
  "about (Started f) = Some f"
| "about (Artifact f p) = Some f"
| "about (Transcribed f p) = Some f"
| "about (LedgerRow f row) = Some f"
| "about e = None"

text \<open>A step that logs nothing about any video and changes no node that exists.\<close>

definition quiet :: "state \<Rightarrow> state \<Rightarrow> bool" where
  "quiet s s' = (logs (\<lambda>ev. about ev = None) s s'
                 \<and> (\<forall>q. fs s q \<noteq> None \<longrightarrow> fs s' q = fs s q))"

text \<open>The kinds of events.\<close>

definition is_row :: "event \<Rightarrow> bool" where
  "is_row e = (case e of LedgerRow f row \<Rightarrow> True | _ \<Rightarrow> False)"

definition is_artifact :: "event \<Rightarrow> bool" where
  "is_artifact e = (case e of Artifact g a \<Rightarrow> True | _ \<Rightarrow> False)"

definition artifact_of :: "string \<Rightarrow> event \<Rightarrow> bool" where
  "artifact_of f e = (case e of Artifact g p \<Rightarrow> g = f | _ \<Rightarrow> False)"

definition is_makedirs :: "event \<Rightarrow> bool" where
  "is_makedirs e = (case e of Makedirs p \<Rightarrow> True | _ \<Rightarrow> False)"

definition is_dir_event :: "event \<Rightarrow> bool" where
  "is_dir_event e = (case e of Makedirs p \<Rightarrow> True | Rmtree p \<Rightarrow> True | _ \<Rightarrow> False)"

definition work_of :: "string \<Rightarrow> event \<Rightarrow> bool" where
  "work_of f e =
     (case e of Makedirs p \<Rightarrow> True | Rmtree p \<Rightarrow> True | Artifact g p \<Rightarrow> g = f
      | Transcribed g p \<Rightarrow> g = f | _ \<Rightarrow> False)"

text \<open>
  The ledger rows and the files written for the video file \<open>f\<close>, in the order
  of the log.
\<close>

fun rows_of :: "string \<Rightarrow> event list \<Rightarrow> string list list" where
  "rows_of f [] = []"
| "rows_of f (LedgerRow g row # evs) = (if g = f then row # rows_of f evs else rows_of f evs)"
| "rows_of f (e # evs) = rows_of f evs"

fun artifacts_of :: "string \<Rightarrow> event list \<Rightarrow> path list" where
  "artifacts_of f [] = []"
| "artifacts_of f (Artifact g p # evs) = (if g = f then p # artifacts_of f evs else artifacts_of f evs)"
| "artifacts_of f (e # evs) = artifacts_of f evs"

text \<open>All ledger rows of the log, in order.\<close>

fun all_rows :: "event list \<Rightarrow> string list list" where
  "all_rows [] = []"
| "all_rows (LedgerRow g row # evs) = row # all_rows evs"
| "all_rows (e # evs) = all_rows evs"

text \<open>
  Every ledger row of the log starts with the name \<open>nm\<close> gives to its video
  file.
\<close>

definition named :: "(string \<Rightarrow> string) \<Rightarrow> event \<Rightarrow> bool" where
  "named nm e = (case e of LedgerRow g row \<Rightarrow> row \<noteq> [] \<and> hd row = nm g | _ \<Rightarrow> True)"

text \<open>
  Whenever a ledger row is written, \<open>E f\<close> holds of the events logged before
  it, \<open>f\<close> being the video file of the row.
\<close>

definition late :: "(string \<Rightarrow> event set \<Rightarrow> bool) \<Rightarrow> event list \<Rightarrow> bool" where
  "late E evs = (\<forall>pre f row post. evs = pre @ LedgerRow f row # post \<longrightarrow> E f (set pre))"

text \<open>An event of the setup, or an event of a video the loop does not skip.\<close>

definition split_event :: "string set \<Rightarrow> event \<Rightarrow> bool" where
  "split_event processed e =
     (case about e of
        None \<Rightarrow> True
      | Some g \<Rightarrow> endswith g video_exts \<and> fst (splitext g) \<notin> processed)"

text \<open>An event of the setup, or an event of one of the input files.\<close>

definition main_event :: "string list \<Rightarrow> event \<Rightarrow> bool" where
  "main_event input_files e = (case about e of None \<Rightarrow> True | Some g \<Rightarrow> g \<in> set input_files)"

subsection \<open>The file system\<close>

text \<open>
  A directory can be made at \<open>p\<close>: on the way to it and at it there are only directories
  or nothing.
\<close>

definition creatable :: "filesystem \<Rightarrow> path \<Rightarrow> bool" where
  "creatable f p = (p \<noteq> [] \<and> list_all (\<lambda>q. q = [] \<or> f q = None \<or> f q = Some Dir) (prefixes p))"

text \<open>
  The directory \<open>p\<close> exists, and so does every directory on the way to it.
\<close>

definition dir_chain :: "filesystem \<Rightarrow> path \<Rightarrow> bool" where
  "dir_chain f p = (p \<noteq> [] \<and> list_all (\<lambda>q. q = [] \<or> f q = Some Dir) (prefixes p))"

text \<open>Every node that is not at or below \<open>d\<close> is kept.\<close>

definition keeps_outside :: "path \<Rightarrow> state \<Rightarrow> state \<Rightarrow> bool" where
  "keeps_outside d s s' = (\<forall>q. \<not> prefix d q \<and> fs s q \<noteq> None \<longrightarrow> fs s' q = fs s q)"

text \<open>
  The first cells of the rows below the header of a ledger; nothing for a missing file, a
  directory or a file without rows.
\<close>

definition logged_names :: "node option \<Rightarrow> string set" where
  "logged_names n = (case n of Some (CsvFile (header # rest)) \<Rightarrow> set (map hd rest) | _ \<Rightarrow> {})"

text \<open>
  The ledger at \<open>p\<close>, when it exists, receives exactly the rows of the log, in
  order.
\<close>

definition ledger_follows :: "path \<Rightarrow> state \<Rightarrow> state \<Rightarrow> bool" where
  "ledger_follows p s s' =
     (\<exists>evs. trace s' = trace s @ evs
        \<and> (\<forall>old. fs s p = Some (CsvFile old) \<longrightarrow> fs s' p = Some (CsvFile (old @ all_rows evs))))"

subsection \<open>What split\_video.py writes for a video\<close>

text \<open>
  The scenes the detector finds in the video file \<open>f\<close> of the input folder;
  none when it fails.
\<close>

definition scenes_of :: "world \<Rightarrow> path \<Rightarrow> string \<Rightarrow> (timecode \<times> timecode) list" where
  "scenes_of w input_folder f =
     (case detect_scenes w (input_folder @ [f]) of Inr scenes \<Rightarrow> scenes | Inl e \<Rightarrow> [])"

text \<open>
  The image and the clip of each of the \<open>n\<close> scenes, named by the templates of
  lines 58 and 67 of split\_video.py.
\<close>

definition split_image_paths :: "world \<Rightarrow> path \<Rightarrow> string \<Rightarrow> nat \<Rightarrow> path list" where
  "split_image_paths w output_folder f n =
     map (\<lambda>k. output_folder @ [''images''] @
                [get_file_name f @ ''-Scene-'' @ scene_number w n k @ ''-01.jpg''])
       [1..<Suc n]"

definition split_clip_paths :: "world \<Rightarrow> path \<Rightarrow> string \<Rightarrow> nat \<Rightarrow> path list" where
  "split_clip_paths w output_folder f n =
     map (\<lambda>k. output_folder @ [''videos''] @
                [get_file_name f @ ''-Scene-'' @ scene_number w n k @ ''.mp4''])
       [1..<Suc n]"

text \<open>
  The rows of lines 72 to 75: the bare name, the index of the scene counted from 1, and
  the two times in seconds.
\<close>

definition split_rows :: "string \<Rightarrow> (timecode \<times> timecode) list \<Rightarrow> string list list" where
  "split_rows f scenes =
     map (\<lambda>k. [fst (splitext f), str_nat k,
                get_seconds (fst (scenes ! (k - 1))), get_seconds (snd (scenes ! (k - 1)))])
       [1..<Suc (length scenes)]"

text \<open>All that one turn of the loop logs for a video it handles to the end.\<close>

definition split_trace :: "world \<Rightarrow> path \<Rightarrow> string \<Rightarrow> (timecode \<times> timecode) list \<Rightarrow> event list" where
  "split_trace w output_folder f scenes =
     Started f # map (Artifact f) (split_image_paths w output_folder f (length scenes))
       @ map (Artifact f) (split_clip_paths w output_folder f (length scenes))
       @ map (LedgerRow f) (split_rows f scenes)"

text \<open>The same, and nothing for a file the loop skips (line 40).\<close>

definition split_expected :: "world \<Rightarrow> path \<Rightarrow> path \<Rightarrow> string set \<Rightarrow> string \<Rightarrow> event list" where
  "split_expected w input_folder output_folder processed f =
     (if \<not> endswith f video_exts \<or> fst (splitext f) \<in> processed then []
      else split_trace w output_folder f (scenes_of w input_folder f))"

text \<open>
  The set \<open>X\<close> of events holds an image and a clip for every scene of
  \<open>f\<close>.
\<close>

definition split_produced :: "world \<Rightarrow> path \<Rightarrow> path \<Rightarrow> string \<Rightarrow> event set \<Rightarrow> bool" where
  "split_produced w input_folder output_folder f X =
     (\<exists>scenes. detect_scenes w (input_folder @ [f]) = Inr scenes
        \<and> Artifact f ` set (split_image_paths w output_folder f (length scenes)
                             @ split_clip_paths w output_folder f (length scenes)) \<subseteq> X)"

subsection \<open>What transcribe.py writes for a video\<close>

text \<open>
  The image, the clip and the sound file of each scene, in the directory of the video
  (lines 63 to 87 of transcribe.py).
\<close>

definition scene_image_paths :: "world \<Rightarrow> path \<Rightarrow> string \<Rightarrow> nat \<Rightarrow> path list" where
  "scene_image_paths w output_folder f n =
     map (\<lambda>k. video_dir_of output_folder f @ [''images''] @ [scene_number w n k @ ''.jpg''])
       [1..<Suc n]"

definition scene_clip_paths :: "world \<Rightarrow> path \<Rightarrow> string \<Rightarrow> nat \<Rightarrow> path list" where
  "scene_clip_paths w output_folder f n =
     map (\<lambda>k. video_dir_of output_folder f @ [''scenes''] @ [scene_number w n k @ snd (splitext f)])
       [1..<Suc n]"

definition scene_audio_path :: "path \<Rightarrow> string \<Rightarrow> nat \<Rightarrow> path" where
  "scene_audio_path output_folder f k =
     video_dir_of output_folder f @ [''audio''] @ [zfill 3 (str_nat k) @ ''.mp3'']"

text \<open>
  The last field of a row: the text entry of the result of the recogniser, or the fallback
  of line 118 when the result has none.
\<close>

definition transcription_of :: "world \<Rightarrow> string \<Rightarrow> path \<Rightarrow> string" where
  "transcription_of w f a =
     (case transcriber w f a of
        Inr res \<Rightarrow> (case res ''text'' of None \<Rightarrow> ''NO TRANSCRIPTION FOUND'' | Some t \<Rightarrow> t)
      | Inl e \<Rightarrow> [])"

text \<open>The row of lines 119 to 129 for scene \<open>k\<close>.\<close>

definition scene_row :: "world \<Rightarrow> path \<Rightarrow> string \<Rightarrow> nat \<Rightarrow> timecode \<times> timecode \<Rightarrow> string list" where
  "scene_row w output_folder f k sc =
     [f, zfill 3 (str_nat k),
      path_str (video_dir_of output_folder f @ [''scenes''] @ [zfill 3 (str_nat k) @ snd (splitext f)]),
      path_str (video_dir_of output_folder f @ [''images''] @ [zfill 3 (str_nat k) @ ''.jpg'']),
      timecode_str (fst sc), timecode_str (snd sc),
      transcription_of w f (scene_audio_path output_folder f k)]"

text \<open>What the loop logs for scene \<open>k\<close> between the clips and the rows.\<close>

definition scene_events :: "path \<Rightarrow> string \<Rightarrow> nat \<Rightarrow> event list" where
  "scene_events output_folder f k =
     [Artifact f (scene_audio_path output_folder f k),
      Transcribed f (scene_audio_path output_folder f k)]"

text \<open>
  The rows of all scenes, and all that one turn of the loop of
  \<^verbatim>\<open>main\<close> logs for a video after its directories are made.
\<close>

definition scene_rows :: "world \<Rightarrow> path \<Rightarrow> string \<Rightarrow> (timecode \<times> timecode) list \<Rightarrow> string list list" where
  "scene_rows w output_folder f scenes =
     map (\<lambda>k. scene_row w output_folder f k (scenes ! (k - 1))) [1..<Suc (length scenes)]"

definition scenes_trace :: "world \<Rightarrow> path \<Rightarrow> string \<Rightarrow> (timecode \<times> timecode) list \<Rightarrow> event list" where
  "scenes_trace w output_folder f scenes =
     map (Artifact f) (scene_image_paths w output_folder f (length scenes))
     @ map (Artifact f) (scene_clip_paths w output_folder f (length scenes))
     @ concat (map (scene_events output_folder f) [1..<Suc (length scenes)])
     @ map (LedgerRow f) (scene_rows w output_folder f scenes)"

text \<open>
  The events of lines 58 to 61: the directory of the video is removed when it existed, and
  made with its three subdirectories.
\<close>

definition dir_events :: "path \<Rightarrow> bool \<Rightarrow> event list" where
  "dir_events video_dir existed =
     (if existed then [Rmtree video_dir] else [])
     @ map Makedirs [video_dir, video_dir @ [''scenes''], video_dir @ [''images''],
                     video_dir @ [''audio'']]"

text \<open>
  The set \<open>X\<close> of events holds an image, a clip, a sound file and a
  transcription for every scene of \<open>f\<close>.
\<close>

definition main_produced :: "world \<Rightarrow> path \<Rightarrow> path \<Rightarrow> string \<Rightarrow> event set \<Rightarrow> bool" where
  "main_produced w input_folder output_folder f X =
     (\<exists>scenes. detect_scenes w (input_folder @ [f]) = Inr scenes
        \<and> Artifact f ` set (scene_image_paths w output_folder f (length scenes)
                             @ scene_clip_paths w output_folder f (length scenes)
                             @ map (scene_audio_path output_folder f) [1..<Suc (length scenes)]) \<subseteq> X
        \<and> Transcribed f ` set (map (scene_audio_path output_folder f) [1..<Suc (length scenes)]) \<subseteq> X)"

section \<open>Concrete worlds and states\<close>

text \<open>
  An input folder with one video of two scenes, a text file and a video whose extension
  is in capitals. The recogniser returns an empty text for the first scene and no text
  entry for the second.
\<close>

definition example_scenes :: "(timecode \<times> timecode) list" where
  "example_scenes =
     [(FrameTimecode ''0.0'' ''00:00:00.000'', FrameTimecode ''1.0'' ''00:00:01.000''),
      (FrameTimecode ''1.0'' ''00:00:01.000'', FrameTimecode ''2.5'' ''00:00:02.500'')]"

definition example_world :: world where
  "example_world =
     \<lparr>listdir = (\<lambda>p. Inr [''a.mp4'', ''notes.txt'', ''x.MP4'']),
      detect_scenes = (\<lambda>p. Inr example_scenes),
      scene_number = (\<lambda>n k. zfill 3 (str_nat k)),
      extract_audio = (\<lambda>v p. None),
      transcriber = (\<lambda>v p. Inr (if p = [''out'', ''videos'', ''a'', ''audio'', ''001.mp3'']
                                  then [''text'' \<mapsto> ''''] else Map.empty))\<rparr>"

text \<open>
  An empty file system; a ledger file without any row; an output folder without ledger.
\<close>

definition empty_state :: state where
  "empty_state = \<lparr>fs = Map.empty, trace = []\<rparr>"

definition empty_ledger_state :: state where
  "empty_ledger_state = \<lparr>fs = [[''ledger.csv''] \<mapsto> CsvFile []], trace = []\<rparr>"

definition bare_folder_state :: state where
  "bare_folder_state = \<lparr>fs = [[''out''] \<mapsto> Dir], trace = []\<rparr>"

text \<open>An output folder whose ledger holds the header and one row.\<close>

definition logged_row :: "string list" where
  "logged_row =
     [''a.mp4'', ''001'', ''out/videos/a/scenes/001.mp4'', ''out/videos/a/images/001.jpg'',
      ''00:00:00.000'', ''00:00:01.000'', ''hello'']"

definition logged_state :: state where
  "logged_state =
     \<lparr>fs = [[''out''] \<mapsto> Dir, [''out'', ''videos''] \<mapsto> Dir,
             [''out'', ''scenes.csv''] \<mapsto>
               CsvFile [transcribe_header,
                        [''a.mp4'', ''001'', ''out/videos/a/scenes/001.mp4'',
                         ''out/videos/a/images/001.jpg'', ''00:00:00.000'', ''00:00:01.000'',
                         ''hello'']]],
      trace = []\<rparr>"

text \<open>A ledger of split\_video.py that holds the video \<^verbatim>\<open>a\<close>.\<close>

definition split_logged_state :: state where
  "split_logged_state =
     \<lparr>fs = [[''ledger.csv''] \<mapsto> CsvFile [split_header, [''a'', ''1'', ''0.0'', ''1.0'']]],
      trace = []\<rparr>"

text \<open>
  An output folder where the directory of the video \<^verbatim>\<open>a.mp4\<close> holds
  a file of an earlier run.
\<close>

definition stale_state :: state where
  "stale_state =
     \<lparr>fs = [[''out''] \<mapsto> Dir, [''out'', ''videos''] \<mapsto> Dir,
             [''out'', ''videos'', ''a''] \<mapsto> Dir,
             [''out'', ''videos'', ''a'', ''old.jpg''] \<mapsto> MediaFile,
             [''out'', ''scenes.csv''] \<mapsto> CsvFile [transcribe_header]],
      trace = []\<rparr>"


definition main_example_pre :: "event list" where
  "main_example_pre =
     [Started ''a.mp4'', Makedirs [''out'', ''videos'', ''a''],
      Makedirs [''out'', ''videos'', ''a'', ''scenes''],
      Makedirs [''out'', ''videos'', ''a'', ''images''],
      Makedirs [''out'', ''videos'', ''a'', ''audio''],
      Artifact ''a.mp4'' [''out'', ''videos'', ''a'', ''images'', ''001.jpg''],
      Artifact ''a.mp4'' [''out'', ''videos'', ''a'', ''images'', ''002.jpg''],
      Artifact ''a.mp4'' [''out'', ''videos'', ''a'', ''scenes'', ''001.mp4''],
      Artifact ''a.mp4'' [''out'', ''videos'', ''a'', ''scenes'', ''002.mp4''],
      Artifact ''a.mp4'' [''out'', ''videos'', ''a'', ''audio'', ''001.mp3''],
      Transcribed ''a.mp4'' [''out'', ''videos'', ''a'', ''audio'', ''001.mp3''],
      Artifact ''a.mp4'' [''out'', ''videos'', ''a'', ''audio'', ''002.mp3''],
      Transcribed ''a.mp4'' [''out'', ''videos'', ''a'', ''audio'', ''002.mp3'']]"

text \<open>The rows of the run of transcribe.py on the example world.\<close>

definition main_example_rows :: "string list list" where
  "main_example_rows =
     [[''a.mp4'', ''001'', ''out/videos/a/scenes/001.mp4'', ''out/videos/a/images/001.jpg'',
       ''00:00:00.000'', ''00:00:01.000'', ''''],
      [''a.mp4'', ''002'', ''out/videos/a/scenes/002.mp4'', ''out/videos/a/images/002.jpg'',
       ''00:00:01.000'', ''00:00:02.500'', ''NO TRANSCRIPTION FOUND'']]"

section \<open>Results of sequencing\<close>

lemma then_do_Ok:
  "then_do m k s = Ok y t \<longleftrightarrow> (\<exists>x s'. m s = Ok x s' \<and> k x s' = Ok y t)"
  by (auto simp: then_do_def split: result.splits)

lemma then_do_Raise:
  "then_do m k s = Raise e t \<longleftrightarrow>
     (m s = Raise e t \<or> (\<exists>x s'. m s = Ok x s' \<and> k x s' = Raise e t))"
  by (auto simp: then_do_def split: result.splits)

lemma stepsD: "steps R m \<Longrightarrow> R s (final (m s))"
  by (simp add: steps_def)

lemma steps_then_do:
  assumes "transp R" "steps R m" "\<And>x. steps R (k x)"
  shows "steps R (then_do m k)"
  unfolding steps_def
proof
  fix s
  show "R s (final (then_do m k s))"
  proof (cases "m s")
    case (Ok x s')
    have "R s s'" using stepsD[OF assms(2), of s] Ok by simp
    moreover have "R s' (final (k x s'))" using stepsD[OF assms(3)] .
    ultimately show ?thesis using assms(1) Ok by (auto simp: then_do_def dest: transpD)
  next
    case (Raise e s')
    then show ?thesis using stepsD[OF assms(2), of s] by (simp add: then_do_def)
  qed
qed

lemma steps_for_each:
  assumes "reflp R" "transp R" "\<And>x. x \<in> set xs \<Longrightarrow> steps R (body x)"
  shows "steps R (for_each body xs)"
  using assms(3)
proof (induction xs)
  case Nil
  then show ?case using assms(1) by (simp add: steps_def reflpD)
next
  case (Cons x xs)
  have b: "steps R (body x)" using Cons.prems by simp
  have r: "steps R (for_each body xs)" using Cons by simp
  show ?case unfolding steps_def
  proof
    fix s
    show "R s (final (for_each body (x # xs) s))"
    proof (cases "body x s")
      case (Ok u s')
      then show ?thesis using stepsD[OF b, of s] stepsD[OF r, of s'] assms(2)
        by (auto dest: transpD)
    next
      case (Raise e s')
      then show ?thesis using stepsD[OF b, of s] by simp
    qed
  qed
qed

lemma steps_accumulate:
  assumes "reflp R" "transp R" "\<And>x. x \<in> set xs \<Longrightarrow> steps R (body x)"
  shows "steps R (accumulate body xs acc)"
  using assms(3)
proof (induction xs arbitrary: acc)
  case Nil
  then show ?case using assms(1) by (simp add: steps_def reflpD)
next
  case (Cons x xs)
  have b: "steps R (body x)" using Cons.prems by simp
  have r: "\<And>acc. steps R (accumulate body xs acc)" using Cons by simp
  show ?case unfolding steps_def
  proof
    fix s
    show "R s (final (accumulate body (x # xs) acc s))"
    proof (cases "body x s")
      case (Ok row s')
      then show ?thesis using stepsD[OF b, of s] stepsD[OF r, of s'] assms(2)
        by (auto dest: transpD)
    next
      case (Raise e s')
      then show ?thesis using stepsD[OF b, of s] by simp
    qed
  qed
qed

lemma steps_if:
  "steps R m \<Longrightarrow> steps R n \<Longrightarrow> steps R (\<lambda>s. if c s then m s else n s)"
  by (simp add: steps_def)

lemma steps_Ok: "reflp R \<Longrightarrow> steps R (\<lambda>s. Ok x s)"
  by (simp add: steps_def reflpD)

lemma steps_from_world: "reflp R \<Longrightarrow> steps R (from_world r)"
  by (cases r) (simp_all add: steps_def from_world_def reflpD)

lemma logs_refl: "reflp (logs P)"
  by (simp add: reflp_def logs_def)

lemma logs_trans: "transp (logs P)"
  by (auto simp: transp_def logs_def)

lemma logs_makedirs: "P (Makedirs p) \<Longrightarrow> steps (logs P) (makedirs p b)"
  by (auto simp: steps_def logs_def makedirs_def split: option.splits node.splits)

lemma logs_rmtree: "P (Rmtree p) \<Longrightarrow> steps (logs P) (rmtree p)"
  by (auto simp: steps_def logs_def rmtree_def split: option.splits node.splits)

lemma logs_open_write: "P (OpenedWrite p) \<Longrightarrow> steps (logs P) (open_write p)"
  by (auto simp: steps_def logs_def open_write_def split: option.splits node.splits)

lemma logs_open_append: "steps (logs P) (open_append p)"
  by (auto simp: steps_def logs_def open_append_def split: option.splits node.splits)

lemma logs_writerow: "P (ev row) \<Longrightarrow> steps (logs P) (writerow ev p row)"
  by (auto simp: steps_def logs_def writerow_def)

lemma logs_read_rows: "steps (logs P) (read_rows p)"
  by (auto simp: steps_def logs_def read_rows_def split: option.splits node.splits)

lemma logs_first_cells: "steps (logs P) (first_cells rows)"
  by (auto simp: steps_def logs_def first_cells_def)

lemma logs_next_row: "steps (logs P) (next_row rows)"
  by (auto simp: steps_def logs_def next_row_def split: list.splits)

lemma logs_emit: "P ev \<Longrightarrow> steps (logs P) (emit ev)"
  by (auto simp: steps_def logs_def emit_def)

lemma logs_write_artifact: "P (Artifact f p) \<Longrightarrow> steps (logs P) (write_artifact f p)"
  by (auto simp: steps_def logs_def write_artifact_def split: option.splits node.splits)

lemma logs_video_to_audio: "P (Artifact f p) \<Longrightarrow> steps (logs P) (video_to_audio w f i p)"
  using logs_write_artifact[of P f p]
  by (auto simp: steps_def logs_def video_to_audio_def split: option.splits node.splits)

lemma logs_save_images:
  "(\<And>p. P (Artifact f p)) \<Longrightarrow> steps (logs P) (save_images w f scenes t d)"
  unfolding save_images_def
  by (rule steps_for_each[OF logs_refl logs_trans]) (auto intro: logs_write_artifact)

lemma logs_split_video_ffmpeg:
  "(\<And>p. P (Artifact f p)) \<Longrightarrow> steps (logs P) (split_video_ffmpeg w f scenes t d)"
  unfolding split_video_ffmpeg_def
  by (rule steps_for_each[OF logs_refl logs_trans]) (auto intro: logs_write_artifact)

lemma scan_filter:
  "scan done todo files = todo @ filter (\<lambda>f. endswith f video_exts \<and> f \<notin> set done) files"
  by (induction files arbitrary: todo) auto

lemma makedirs_Ok:
  assumes "makedirs p b s = Ok u s'"
  shows "fs s' p = Some Dir"
    and "\<And>q. fs s q \<noteq> None \<Longrightarrow> fs s' q = fs s q"
    and "\<And>q. fs s' q \<noteq> fs s q \<Longrightarrow> fs s' q = Some Dir \<and> prefix q p"
    and "trace s' = trace s \<or> trace s' = trace s @ [Makedirs p]"
  using assms
  by (auto simp: makedirs_def split: if_splits option.splits node.splits)

lemma makedirs_Raise: "makedirs p b s = Raise e s' \<Longrightarrow> s' = s"
  by (auto simp: makedirs_def split: if_splits option.splits node.splits)

lemma makedirs_exist_ok:
  assumes "p \<noteq> []" and "list_all (\<lambda>q. q = [] \<or> fs s q = None \<or> fs s q = Some Dir) (prefixes p)"
  shows "\<exists>s'. makedirs p True s = Ok () s'"
proof -
  have "fs s p = None \<or> fs s p = Some Dir"
    using assms by (auto simp: list_all_iff)
  moreover have "\<not> list_ex (\<lambda>q. q \<noteq> [] \<and> fs s q \<noteq> None \<and> fs s q \<noteq> Some Dir) (prefixes p)"
    using assms(2) by (auto simp: list_all_iff list_ex_iff)
  ultimately show ?thesis using assms(1)
    by (auto simp: makedirs_def)
qed

section \<open>The script split\_video.py\<close>

text \<open>
  Claim C6. Run as a script, split\_video.py should complete and leave the clips, the
  images and a ledger under \<^verbatim>\<open>vids-split\<close>. The call of line 80 gives no
  \<^verbatim>\<open>csv_file\<close>, a parameter without default: whatever the folders hold, the script
  stops with TypeError before the body of the function runs, and nothing is written.
\<close>

theorem split_video_script_raises_TypeError:
  "split_video_script w s = Raise TypeError s"
  by (simp add: split_video_script_def call_split_video_scenes_def)

section \<open>Making directories\<close>

lemma makedirs_creatable:
  assumes "creatable (fs s) p"
  shows "\<exists>s'. makedirs p True s = Ok () s' \<and> logs is_makedirs s s'
     \<and> (\<forall>q. fs s q \<noteq> None \<longrightarrow> fs s' q = fs s q)
     \<and> (\<forall>q. fs s' q \<noteq> fs s q \<longrightarrow> fs s' q = Some Dir)"
proof -
  obtain s' where ok: "makedirs p True s = Ok () s'"
    using makedirs_exist_ok[of p s] assms by (auto simp: creatable_def)
  have "logs is_makedirs s s'"
    using makedirs_Ok(4)[OF ok] by (auto simp: logs_def is_makedirs_def)
  then show ?thesis using ok makedirs_Ok(2,3)[OF ok] by blast
qed

lemma creatable_kept:
  assumes "creatable f p" "\<forall>q. g q \<noteq> f q \<longrightarrow> g q = Some Dir"
  shows "creatable g p"
  using assms unfolding creatable_def list_all_iff by metis

lemma logs_append: "logs P s s' \<Longrightarrow> logs P s' s'' \<Longrightarrow> logs P s s''"
  using logs_trans by (auto dest: transpD)

lemma started_append: "started (xs @ ys) = started xs @ started ys"
  by (induction xs rule: started.induct) auto

lemma started_makedirs: "list_all is_makedirs evs \<Longrightarrow> started evs = []"
  by (induction evs rule: started.induct) (auto simp: is_makedirs_def)

section \<open>An empty ledger file\<close>

text \<open>
  Claim C9. When the ledger file of split\_video.py exists and has no row at all, and
  the output directories can be made, \<^verbatim>\<open>split_video_scenes\<close> raises StopIteration
  at \<^verbatim>\<open>next(reader)\<close>: the set of processed videos is never built, the input folder
  is never listed, no video is handled, and nothing but directories has been created.
\<close>

theorem empty_ledger_StopIteration:
  assumes empty: "fs s csv_file = Some (CsvFile [])"
    and out: "creatable (fs s) (output_folder @ [''images''])"
             "creatable (fs s) (output_folder @ [''videos''])"
    and ne: "output_folder \<noteq> []"
  shows "\<exists>s'. split_video_scenes w input_folder output_folder csv_file s = Raise StopIteration s'
           \<and> (\<exists>evs. trace s' = trace s @ evs \<and> list_all is_makedirs evs)
           \<and> started (trace s') = started (trace s)
           \<and> (\<forall>q. fs s' q \<noteq> fs s q \<longrightarrow> fs s q = None \<and> fs s' q = Some Dir)"
proof -
  have o: "creatable (fs s) output_folder"
    using out(1) ne by (auto simp: creatable_def list_all_iff)
  obtain s1 where s1: "makedirs output_folder True s = Ok () s1" "logs is_makedirs s s1"
      "\<forall>q. fs s q \<noteq> None \<longrightarrow> fs s1 q = fs s q" "\<forall>q. fs s1 q \<noteq> fs s q \<longrightarrow> fs s1 q = Some Dir"
    using makedirs_creatable[OF o] by blast
  have "creatable (fs s1) (output_folder @ [''images''])"
    using creatable_kept[OF out(1) s1(4)] .
  then obtain s2 where s2: "makedirs (output_folder @ [''images'']) True s1 = Ok () s2"
      "logs is_makedirs s1 s2"
      "\<forall>q. fs s1 q \<noteq> None \<longrightarrow> fs s2 q = fs s1 q" "\<forall>q. fs s2 q \<noteq> fs s1 q \<longrightarrow> fs s2 q = Some Dir"
    using makedirs_creatable by blast
  have "creatable (fs s2) (output_folder @ [''videos''])"
    using creatable_kept[OF creatable_kept[OF out(2) s1(4)] s2(4)] .
  then obtain s3 where s3: "makedirs (output_folder @ [''videos'']) True s2 = Ok () s3"
      "logs is_makedirs s2 s3"
      "\<forall>q. fs s2 q \<noteq> None \<longrightarrow> fs s3 q = fs s2 q" "\<forall>q. fs s3 q \<noteq> fs s2 q \<longrightarrow> fs s3 q = Some Dir"
    using makedirs_creatable by blast
  have kept: "\<forall>q. fs s q \<noteq> None \<longrightarrow> fs s3 q = fs s q"
    using s1(3) s2(3) s3(3) by metis
  have new: "\<forall>q. fs s3 q \<noteq> fs s q \<longrightarrow> fs s q = None \<and> fs s3 q = Some Dir"
    using kept s1(4) s2(4) s3(4) by metis
  have csv: "fs s3 csv_file = Some (CsvFile [])"
    using kept empty by simp
  have lg: "logs is_makedirs s s3"
    using logs_append[OF logs_append[OF s1(2) s2(2)] s3(2)] .
  have run: "split_video_scenes w input_folder output_folder csv_file s = Raise StopIteration s3"
    using s1(1) s2(1) s3(1) csv
    by (simp add: split_video_scenes_def Let_def then_do_def path_exists_def read_rows_def next_row_def)
  from lg obtain evs where evs: "trace s3 = trace s @ evs" "list_all is_makedirs evs"
    by (auto simp: logs_def)
  have "started (trace s3) = started (trace s)"
    using evs by (simp add: started_append started_makedirs)
  then show ?thesis using run evs new by blast
qed

theorem empty_ledger_StopIteration_witness:
  "fs empty_ledger_state [''ledger.csv''] = Some (CsvFile [])
   \<and> creatable (fs empty_ledger_state) [''vids-split'', ''images'']
   \<and> creatable (fs empty_ledger_state) [''vids-split'', ''videos'']
   \<and> (\<exists>s'. split_video_scenes example_world [''vids''] [''vids-split''] [''ledger.csv'']
               empty_ledger_state = Raise StopIteration s'
           \<and> started (trace s') = [])"
  using empty_ledger_StopIteration[of empty_ledger_state "[''ledger.csv'']" "[''vids-split'']"
      example_world "[''vids'']"]
  by (auto simp: empty_ledger_state_def creatable_def)

section \<open>The ledger of transcribe.py at start-up\<close>


lemma init_folder_existing:
  assumes "fs s output_folder \<noteq> None"
  shows "fs (final (init_folder output_folder s)) = fs s"
    and "fs s (output_folder @ [''scenes.csv'']) = None \<Longrightarrow>
           init_folder output_folder s = Raise FileNotFoundError s"
    and "fs s (output_folder @ [''scenes.csv'']) = Some (CsvFile (transcribe_header # rows)) \<Longrightarrow>
         [] \<notin> set rows \<Longrightarrow>
           init_folder output_folder s = Ok (''video'' # map hd rows) s"
  using assms
  by (auto simp: init_folder_def path_exists_def then_do_def read_rows_def first_cells_def
      transcribe_header_def split: option.splits node.splits)



section \<open>One turn of the loop of split\_video.py\<close>

lemma map_enumerate_index:
  "map (\<lambda>x. g (Suc (fst x)) (snd x)) (List.enumerate 0 xs)
     = map (\<lambda>k. g k (xs ! (k - 1))) [1..<Suc (length xs)]"
  by (rule nth_equalityI) (simp_all add: nth_enumerate_eq del: upt_Suc)

lemma write_artifact_Ok:
  "write_artifact f p s = Ok u s' \<Longrightarrow> trace s' = trace s @ [Artifact f p]"
  by (auto simp: write_artifact_def split: option.splits node.splits)

lemma for_each_write_artifact_Ok:
  "for_each (\<lambda>x. write_artifact f (g x)) xs s = Ok u s'
     \<Longrightarrow> trace s' = trace s @ map (\<lambda>x. Artifact f (g x)) xs"
proof (induction xs arbitrary: s)
  case Nil
  then show ?case by simp
next
  case (Cons x xs)
  then show ?case
    by (auto split: result.splits dest!: write_artifact_Ok)
qed

lemma save_images_Ok:
  assumes "save_images w f scenes t d s = Ok u s'"
  shows "trace s' = trace s @ map (Artifact f)
     (map (\<lambda>k. d @ [substitute t (get_file_name f) (scene_number w (length scenes) k) ''01'' @ ''.jpg''])
        [1..<Suc (length scenes)])"
proof -
  have "for_each (\<lambda>x. write_artifact f
          (d @ [substitute t (get_file_name f) (scene_number w (length scenes) (Suc (fst x))) ''01'' @ ''.jpg'']))
          (List.enumerate 0 scenes) s = Ok u s'"
    using assms by (simp add: save_images_def case_prod_unfold)
  from for_each_write_artifact_Ok[OF this]
  show ?thesis
    using map_enumerate_index[of "\<lambda>k sc. Artifact f (d @ [substitute t (get_file_name f)
        (scene_number w (length scenes) k) ''01'' @ ''.jpg''])" scenes]
    by (simp add: comp_def)
qed

lemma split_video_ffmpeg_Ok:
  assumes "split_video_ffmpeg w f scenes t d s = Ok u s'"
  shows "trace s' = trace s @ map (Artifact f)
     (map (\<lambda>k. d @ [substitute t (get_file_name f) (scene_number w (length scenes) k) []])
        [1..<Suc (length scenes)])"
proof -
  have "for_each (\<lambda>x. write_artifact f
          (d @ [substitute t (get_file_name f) (scene_number w (length scenes) (Suc (fst x))) []]))
          (List.enumerate 0 scenes) s = Ok u s'"
    using assms by (simp add: split_video_ffmpeg_def case_prod_unfold)
  from for_each_write_artifact_Ok[OF this]
  show ?thesis
    using map_enumerate_index[of "\<lambda>k sc. Artifact f (d @ [substitute t (get_file_name f)
        (scene_number w (length scenes) k) []])" scenes]
    by (simp add: comp_def)
qed

lemma for_each_writerow:
  "\<exists>s'. for_each (\<lambda>x. writerow ev p (g x)) xs s = Ok () s'
        \<and> trace s' = trace s @ map ev (map g xs)"
proof (induction xs arbitrary: s)
  case Nil
  then show ?case by simp
next
  case (Cons x xs)
  obtain s1 where s1: "writerow ev p (g x) s = Ok () s1" "trace s1 = trace s @ [ev (g x)]"
    by (simp add: writerow_def)
  from Cons[of s1] s1 show ?case by auto
qed

lemma open_append_trace: "open_append p s = Ok u s' \<Longrightarrow> trace s' = trace s"
  by (auto simp: open_append_def split: option.splits node.splits)

lemma split_rows_enumerate:
  "map (\<lambda>x. [fst (splitext f), str_nat (Suc (fst x)), get_seconds (fst (snd x)), get_seconds (snd (snd x))])
      (List.enumerate 0 scenes) = split_rows f scenes"
  unfolding split_rows_def
  using map_enumerate_index[of "\<lambda>k sc. [fst (splitext f), str_nat k, get_seconds (fst sc), get_seconds (snd sc)]" scenes]
  by simp

lemma split_one_skip:
  "\<not> endswith f video_exts \<or> fst (splitext f) \<in> processed \<Longrightarrow>
     split_one w inp imgs vids csv processed f s = Ok () s"
  by (simp add: split_one_def Let_def)

lemma split_one_Ok:
  assumes "split_one w inp (out @ [''images'']) (out @ [''videos'']) csv processed f s = Ok u s'"
    and "endswith f video_exts" "fst (splitext f) \<notin> processed"
  shows "\<exists>scenes. detect_scenes w (inp @ [f]) = Inr scenes
            \<and> trace s' = trace s @ split_trace w out f scenes"
proof -
  from assms obtain s1 scenes s2 s3 s4 where
    a: "emit (Started f) s = Ok () s1"
    and b: "from_world (detect_scenes w (inp @ [f])) s1 = Ok scenes s2"
    and c: "save_images w f scenes [VIDEO_NAME, Lit ''-Scene-'', SCENE_NUMBER, Lit ''-'', IMAGE_NUMBER]
              (out @ [''images'']) s2 = Ok () s3"
    and d: "split_video_ffmpeg w f scenes [VIDEO_NAME, Lit ''-Scene-'', SCENE_NUMBER, Lit ''.mp4'']
              (out @ [''videos'']) s3 = Ok () s4"
    and e: "then_do (open_append csv) (\<lambda>u. for_each
             (\<lambda>(idx, (start_time, end_time)).
                writerow (LedgerRow f) csv
                  [fst (splitext f), str_nat (idx + 1), get_seconds start_time, get_seconds end_time])
             (List.enumerate 0 scenes)) s4 = Ok u s'"
    by (auto simp: split_one_def Let_def then_do_Ok)
  from e obtain s5 where
    e1: "open_append csv s4 = Ok () s5"
    and e2: "for_each (\<lambda>x. writerow (LedgerRow f) csv
                  [fst (splitext f), str_nat (Suc (fst x)), get_seconds (fst (snd x)), get_seconds (snd (snd x))])
             (List.enumerate 0 scenes) s5 = Ok u s'"
    by (auto simp: then_do_Ok case_prod_unfold)
  have t1: "trace s1 = trace s @ [Started f]" using a by (auto simp: emit_def)
  have det: "detect_scenes w (inp @ [f]) = Inr scenes" and t2: "s2 = s1"
    using b by (auto simp: from_world_def split: sum.splits)
  have t3: "trace s3 = trace s2 @ map (Artifact f) (split_image_paths w out f (length scenes))"
    using save_images_Ok[OF c] by (simp add: split_image_paths_def)
  have t4: "trace s4 = trace s3 @ map (Artifact f) (split_clip_paths w out f (length scenes))"
    using split_video_ffmpeg_Ok[OF d] by (simp add: split_clip_paths_def)
  have t5: "trace s5 = trace s4" using open_append_trace[OF e1] .
  have t6: "trace s' = trace s5 @ map (LedgerRow f) (split_rows f scenes)"
    using for_each_writerow[of "LedgerRow f" csv
        "\<lambda>x. [fst (splitext f), str_nat (Suc (fst x)), get_seconds (fst (snd x)), get_seconds (snd (snd x))]"
        "List.enumerate 0 scenes" s5] e2 split_rows_enumerate[of f scenes]
    by auto
  show ?thesis using det t1 t2 t3 t4 t5 t6 by (simp add: split_trace_def)
qed

lemma then_do_cases:
  obtains (raises) e s1 where "m s = Raise e s1" "then_do m k s = Raise e s1"
  | (returns) x s1 where "m s = Ok x s1" "then_do m k s = k x s1"
  by (cases "m s") (auto simp: then_do_def)

lemma for_each_writerow_Raise: "for_each (\<lambda>x. writerow ev p (g x)) xs s \<noteq> Raise e s'"
  using for_each_writerow[of ev p g xs s] by auto

lemma logsD: "steps (logs P) m \<Longrightarrow> \<exists>evs. trace (final (m s)) = trace s @ evs \<and> list_all P evs"
  using stepsD[of "logs P" m s] by (simp add: logs_def)

lemma list_all_artifact_map: "list_all (artifact_of f) (map (Artifact f) ps)"
  by (simp add: list_all_iff artifact_of_def)

lemma split_one_Raise:
  assumes "split_one w inp imgs vids csv processed f s = Raise e s'"
  shows "\<exists>evs. trace s' = trace s @ Started f # evs \<and> list_all (artifact_of f) evs"
proof -
  let ?P = "artifact_of f"
  have ns: "endswith f video_exts" "fst (splitext f) \<notin> processed"
    using assms by (auto simp: split_one_def Let_def split: if_splits)
  define s1 where "s1 = s\<lparr>trace := trace s @ [Started f]\<rparr>"
  let ?si = "\<lambda>scenes. save_images w f scenes
               [VIDEO_NAME, Lit ''-Scene-'', SCENE_NUMBER, Lit ''-'', IMAGE_NUMBER] imgs"
  let ?sv = "\<lambda>scenes. split_video_ffmpeg w f scenes
               [VIDEO_NAME, Lit ''-Scene-'', SCENE_NUMBER, Lit ''.mp4''] vids"
  let ?rows = "\<lambda>scenes. for_each (\<lambda>x. writerow (LedgerRow f) csv
                  [fst (splitext f), str_nat (Suc (fst x)), get_seconds (fst (snd x)),
                   get_seconds (snd (snd x))]) (List.enumerate 0 scenes)"
  have r: "then_do (from_world (detect_scenes w (inp @ [f]))) (\<lambda>scenes.
           then_do (?si scenes) (\<lambda>u. then_do (?sv scenes) (\<lambda>u.
           then_do (open_append csv) (\<lambda>u. ?rows scenes)))) s1 = Raise e s'"
    using assms ns
    by (simp add: split_one_def Let_def then_do_def emit_def s1_def case_prod_unfold)
  have li: "\<And>scenes t. \<exists>evs. trace (final (?si scenes t)) = trace t @ evs \<and> list_all ?P evs"
    by (rule logsD[OF logs_save_images]) (simp add: artifact_of_def)
  have lv: "\<And>scenes t. \<exists>evs. trace (final (?sv scenes t)) = trace t @ evs \<and> list_all ?P evs"
    by (rule logsD[OF logs_split_video_ffmpeg]) (simp add: artifact_of_def)
  from r consider
    (a) "from_world (detect_scenes w (inp @ [f])) s1 = Raise e s'"
  | (b) scenes where "?si scenes s1 = Raise e s'"
  | (c) scenes s3 where "?si scenes s1 = Ok () s3" "?sv scenes s3 = Raise e s'"
  | (d) scenes s3 s4 where "?si scenes s1 = Ok () s3" "?sv scenes s3 = Ok () s4"
      "open_append csv s4 = Raise e s'"
  | (e) scenes s5 where "?rows scenes s5 = Raise e s'"
    by (auto simp: then_do_Raise from_world_def split: sum.splits)
  then have "\<exists>evs. trace s' = trace s1 @ evs \<and> list_all ?P evs"
  proof cases
    case a
    then have "s' = s1" by (auto simp: from_world_def split: sum.splits)
    then show ?thesis by simp
  next
    case b
    then show ?thesis using li[of scenes s1] by simp
  next
    case c
    then show ?thesis using li[of scenes s1] lv[of scenes s3] by auto
  next
    case d
    then have "s' = s4" by (auto simp: open_append_def split: option.splits node.splits)
    then show ?thesis using d li[of scenes s1] lv[of scenes s3] by auto
  next
    case e
    then show ?thesis
      using for_each_writerow_Raise[of "LedgerRow f" csv
          "\<lambda>x. [fst (splitext f), str_nat (Suc (fst x)), get_seconds (fst (snd x)),
                 get_seconds (snd (snd x))]" "List.enumerate 0 scenes" s5 e s']
      by simp
  qed
  then show ?thesis by (auto simp: s1_def)
qed

section \<open>Rows and the events before them\<close>

lemma grows_refl: "Q [] \<Longrightarrow> reflp (grows Q)"
  by (simp add: reflp_def grows_def)

lemma grows_trans: "(\<And>a b. Q a \<Longrightarrow> Q b \<Longrightarrow> Q (a @ b)) \<Longrightarrow> transp (grows Q)"
  unfolding transp_def grows_def by (metis append.assoc)

lemma quiet_refl: "quiet s s"
  using logs_refl by (auto simp: quiet_def reflp_def)

lemma quiet_trans: "quiet s s' \<Longrightarrow> quiet s' s'' \<Longrightarrow> quiet s s''"
  unfolding quiet_def using logs_append by (metis (no_types, lifting))

lemma quiet_makedirs: "quiet s (final (makedirs p b s))"
  unfolding quiet_def
  by (cases "makedirs p b s")
     (auto simp: logs_def dest: makedirs_Ok makedirs_Raise)

lemma no_row_prefix:
  "list_all (\<lambda>e. \<not> is_row e) xs \<Longrightarrow> xs @ ys = pre @ LedgerRow g row # post
     \<Longrightarrow> \<exists>zs. pre = xs @ zs \<and> ys = zs @ LedgerRow g row # post"
proof (induction xs arbitrary: pre)
  case Nil
  then show ?case by simp
next
  case (Cons x xs)
  then show ?case by (cases pre) (auto simp: is_row_def)
qed

lemma late_Nil: "late E []"
  by (simp add: late_def)

lemma late_no_rows: "list_all (\<lambda>e. \<not> is_row e) evs \<Longrightarrow> late E evs"
  unfolding late_def using no_row_prefix[of evs "[]"] by fastforce

lemma late_append:
  assumes mono: "\<And>f X Y. E f X \<Longrightarrow> X \<subseteq> Y \<Longrightarrow> E f Y"
    and "late E xs" "late E ys"
  shows "late E (xs @ ys)"
  unfolding late_def
proof (intro allI impI)
  fix pre f row post
  assume eq: "xs @ ys = pre @ LedgerRow f row # post"
  then consider us where "xs = pre @ us" "us @ ys = LedgerRow f row # post"
    | us where "xs @ us = pre" "ys = us @ LedgerRow f row # post"
    by (auto simp: append_eq_append_conv2)
  then show "E f (set pre)"
  proof cases
    case 1
    show ?thesis
    proof (cases us)
      case Nil
      then have "ys = [] @ LedgerRow f row # post" "pre = xs" using 1 by auto
      then have "E f (set [])" using assms(3) unfolding late_def by blast
      then show ?thesis using mono by auto
    next
      case (Cons u us')
      then have "xs = pre @ LedgerRow f row # us'" using 1 by auto
      then show ?thesis using assms(2) unfolding late_def by blast
    qed
  next
    case 2
    then have "E f (set us)" using assms(3) unfolding late_def by blast
    then show ?thesis using mono[of f "set us" "set pre"] 2 by auto
  qed
qed

lemma split_produced_mono: "split_produced w i out f X \<Longrightarrow> X \<subseteq> Y \<Longrightarrow> split_produced w i out f Y"
  unfolding split_produced_def by blast

lemma late_split_trace:
  assumes "detect_scenes w (inp @ [f]) = Inr scenes"
  shows "late (split_produced w inp out) (split_trace w out f scenes)"
  unfolding late_def
proof (intro allI impI)
  fix pre g row post
  let ?arts = "map (Artifact f) (split_image_paths w out f (length scenes))
       @ map (Artifact f) (split_clip_paths w out f (length scenes))"
  assume "split_trace w out f scenes = pre @ LedgerRow g row # post"
  then have eq: "(Started f # ?arts) @ map (LedgerRow f) (split_rows f scenes)
                   = pre @ LedgerRow g row # post"
    by (simp add: split_trace_def)
  have "list_all (\<lambda>e. \<not> is_row e) (Started f # ?arts)"
    by (auto simp: list_all_iff is_row_def)
  from no_row_prefix[OF this eq] obtain zs where
    zs: "pre = (Started f # ?arts) @ zs" "map (LedgerRow f) (split_rows f scenes) = zs @ LedgerRow g row # post"
    by blast
  have "LedgerRow g row \<in> set (map (LedgerRow f) (split_rows f scenes))"
    using zs(2) by simp
  then have "g = f" by auto
  then show "split_produced w inp out g (set pre)"
    using assms zs(1) by (auto simp: split_produced_def)
qed

lemma about_split_trace: "list_all (\<lambda>e. about e = Some f) (split_trace w out f scenes)"
  by (auto simp: split_trace_def list_all_iff)

lemma artifact_ofD: "artifact_of f e \<Longrightarrow> \<exists>p. e = Artifact f p"
  by (cases e) (auto simp: artifact_of_def)

lemma artifact_of_about: "list_all (artifact_of f) evs \<Longrightarrow> list_all (\<lambda>e. about e = Some f) evs"
  by (auto simp: list_all_iff dest!: artifact_ofD)

lemma artifact_of_no_row: "list_all (artifact_of f) evs \<Longrightarrow> list_all (\<lambda>e. \<not> is_row e) evs"
  by (auto simp: list_all_iff is_row_def dest!: artifact_ofD)

text \<open>What one turn of the loop of split\_video.py adds to the log, however it ends.\<close>

lemma split_one_final:
  "\<exists>evs. trace (final (split_one w inp (out @ [''images'']) (out @ [''videos'']) csv processed g s))
            = trace s @ evs
        \<and> list_all (\<lambda>e. about e = Some g) evs
        \<and> (\<not> endswith g video_exts \<or> fst (splitext g) \<in> processed \<longrightarrow> evs = [])
        \<and> late (split_produced w inp out) evs"
proof (cases "\<not> endswith g video_exts \<or> fst (splitext g) \<in> processed")
  case True
  then show ?thesis using split_one_skip[OF True] by (simp add: late_Nil)
next
  case False
  show ?thesis
  proof (cases "split_one w inp (out @ [''images'']) (out @ [''videos'']) csv processed g s")
    case (Ok u s')
    from split_one_Ok[OF Ok] False obtain scenes where
      "detect_scenes w (inp @ [g]) = Inr scenes" "trace s' = trace s @ split_trace w out g scenes"
      by auto
    then show ?thesis using Ok False late_split_trace about_split_trace by auto
  next
    case (Raise e s')
    from split_one_Raise[OF Raise] obtain evs where
      evs: "trace s' = trace s @ Started g # evs" "list_all (artifact_of g) evs" by blast
    have "list_all (\<lambda>e. \<not> is_row e) (Started g # evs)"
      using artifact_of_no_row[OF evs(2)] by (simp add: is_row_def)
    then have "late (split_produced w inp out) (Started g # evs)" by (rule late_no_rows)
    then show ?thesis using Raise False evs artifact_of_about[OF evs(2)] by auto
  qed
qed

section \<open>A run of split\_video\_scenes\<close>

lemma logged_names_kept:
  assumes "\<forall>q. fs s q \<noteq> None \<longrightarrow> fs s' q = fs s q" "\<forall>q. fs s' q \<noteq> fs s q \<longrightarrow> fs s' q = Some Dir"
  shows "logged_names (fs s' p) = logged_names (fs s p)"
proof (cases "fs s p")
  case None
  then have "fs s' p = None \<or> fs s' p = Some Dir" using assms(2) by metis
  then show ?thesis using None by (auto simp: logged_names_def)
next
  case (Some n)
  then show ?thesis using assms(1) by simp
qed

text \<open>The three calls of makedirs at the head of split\_video\_scenes.\<close>

lemma makedirs_final:
  "quiet s (final (makedirs p b s))
   \<and> (\<forall>q. fs (final (makedirs p b s)) q \<noteq> fs s q \<longrightarrow> fs (final (makedirs p b s)) q = Some Dir)"
  using quiet_makedirs[of s p b]
  by (cases "makedirs p b s") (auto dest: makedirs_Ok(3) makedirs_Raise)

text \<open>
  Lines 19 to 33 of split\_video.py, from a state \<open>t\<close>: either an exception, or the loop
  over the listing with the names logged in the ledger of \<open>t\<close>.
\<close>

lemma split_ledger_part:
  fixes loop :: "string set \<Rightarrow> string list \<Rightarrow> state \<Rightarrow> unit result"
    and csv inp :: path and w :: world
  defines "part \<equiv>
        then_do (\<lambda>s. if \<not> path_exists csv s
                      then then_do (open_write csv)
                             (\<lambda>u. writerow HeaderRow csv split_header) s
                      else Ok () s) (\<lambda>u.
        then_do (read_rows csv) (\<lambda>rows.
        then_do (next_row rows) (\<lambda>rest.
        then_do (first_cells rest) (\<lambda>cells.
        then_do (from_world (listdir w inp)) (\<lambda>vids.
        loop (set cells) vids)))))"
  shows "(\<exists>e t1. part t = Raise e t1 \<and> quiet t t1)
       \<or> (\<exists>t1 vids header rest. listdir w inp = Inr vids \<and> quiet t t1
             \<and> part t = loop (logged_names (fs t csv)) vids t1
             \<and> fs t1 csv = Some (CsvFile (header # rest)) \<and> [] \<notin> set rest
             \<and> logged_names (fs t csv) = set (map hd rest)
             \<and> (fs t csv = None \<longrightarrow> rest = []))"
proof (cases "fs t csv")
  case None
  show ?thesis
  proof (cases "open_write csv t")
    case (Raise e t1)
    then have "t1 = t" by (auto simp: open_write_def split: option.splits node.splits)
    then show ?thesis using None Raise
      by (auto simp: part_def then_do_def path_exists_def quiet_refl)
  next
    case (Ok u t1)
    then have t1: "t1 = t\<lparr>fs := (fs t)(csv \<mapsto> CsvFile []), trace := trace t @ [OpenedWrite csv]\<rparr>"
      by (auto simp: open_write_def split: option.splits node.splits)
    define t2 where "t2 = t\<lparr>fs := (fs t)(csv \<mapsto> CsvFile [split_header]),
                            trace := trace t @ [OpenedWrite csv, HeaderRow split_header]\<rparr>"
    have w: "writerow HeaderRow csv split_header t1 = Ok () t2"
      by (simp add: writerow_def t1 t2_def)
    have q: "quiet t t2"
      using None by (auto simp: quiet_def logs_def t2_def)
    have l: "logged_names (fs t csv) = {}" using None by (simp add: logged_names_def)
    show ?thesis
    proof (cases "listdir w inp")
      case (Inl e)
      then have "part t = Raise e t2"
        using None Ok w
        by (simp add: part_def then_do_def path_exists_def read_rows_def t2_def next_row_def
            first_cells_def from_world_def)
      then show ?thesis using q by blast
    next
      case (Inr vids)
      then have "part t = loop {} vids t2"
        using None Ok w
        by (simp add: part_def then_do_def path_exists_def read_rows_def t2_def next_row_def
            first_cells_def from_world_def)
      moreover have "fs t2 csv = Some (CsvFile (split_header # []))" by (simp add: t2_def)
      ultimately show ?thesis using q l Inr None by fastforce
    qed
  qed
next
  case (Some n)
  then have ex: "path_exists csv t" by (simp add: path_exists_def)
  show ?thesis
  proof (cases n)
    case Dir
    then have "part t = Raise IsADirectoryError t"
      using Some ex by (simp add: part_def then_do_def read_rows_def)
    then show ?thesis using quiet_refl by blast
  next
    case MediaFile
    then have "part t = Raise UnicodeDecodeError t"
      using Some ex by (simp add: part_def then_do_def read_rows_def)
    then show ?thesis using quiet_refl by blast
  next
    case (CsvFile rows)
    show ?thesis
    proof (cases rows)
      case Nil
      then have "part t = Raise StopIteration t"
        using Some ex CsvFile by (simp add: part_def then_do_def read_rows_def next_row_def)
      then show ?thesis using quiet_refl by blast
    next
      case (Cons header rest)
      show ?thesis
      proof (cases "[] \<in> set rest")
        case True
        then have "part t = Raise IndexError t"
          using Some ex CsvFile Cons
          by (simp add: part_def then_do_def read_rows_def next_row_def first_cells_def)
        then show ?thesis using quiet_refl by blast
      next
        case False
        have l: "logged_names (fs t csv) = set (map hd rest)"
          using Some CsvFile Cons by (simp add: logged_names_def)
        show ?thesis
        proof (cases "listdir w inp")
          case (Inl e)
          then have "part t = Raise e t"
            using Some ex CsvFile Cons False
            by (simp add: part_def then_do_def read_rows_def next_row_def first_cells_def
                from_world_def)
          then show ?thesis using quiet_refl by blast
        next
          case (Inr vids)
          then have "part t = loop (set (map hd rest)) vids t"
            using Some ex CsvFile Cons False
            by (simp add: part_def then_do_def read_rows_def next_row_def first_cells_def
                from_world_def)
          then show ?thesis using quiet_refl l Inr Some CsvFile Cons False by fastforce
        qed
      qed
    qed
  qed
qed

lemma split_video_scenes_cases:
  "(\<exists>e s1. split_video_scenes w inp out csv s = Raise e s1 \<and> quiet s s1)
   \<or> (\<exists>s1 vids header rest. listdir w inp = Inr vids \<and> quiet s s1
         \<and> split_video_scenes w inp out csv s
             = for_each (split_one w inp (out @ [''images'']) (out @ [''videos'']) csv
                           (logged_names (fs s csv))) vids s1
         \<and> fs s1 csv = Some (CsvFile (header # rest)) \<and> [] \<notin> set rest
         \<and> logged_names (fs s csv) = set (map hd rest))"
proof (cases "makedirs out True s")
  case (Raise e a)
  then have "split_video_scenes w inp out csv s = Raise e a" "quiet s a"
    using quiet_makedirs[of s out True] by (simp_all add: split_video_scenes_def Let_def then_do_def)
  then show ?thesis by blast
next
  case a: (Ok ua a)
  have qa: "quiet s a" "\<forall>q. fs a q \<noteq> fs s q \<longrightarrow> fs a q = Some Dir"
    using makedirs_final[of s out True] a by simp_all
  show ?thesis
  proof (cases "makedirs (out @ [''images'']) True a")
    case (Raise e b)
    then have "split_video_scenes w inp out csv s = Raise e b" "quiet a b"
      using a quiet_makedirs[of a "out @ [''images'']" True]
      by (simp_all add: split_video_scenes_def Let_def then_do_def)
    then show ?thesis using quiet_trans[OF qa(1)] by blast
  next
    case b: (Ok ub b)
    have qb: "quiet a b" "\<forall>q. fs b q \<noteq> fs a q \<longrightarrow> fs b q = Some Dir"
      using makedirs_final[of a "out @ [''images'']" True] b by simp_all
    show ?thesis
    proof (cases "makedirs (out @ [''videos'']) True b")
      case (Raise e c)
      then have "split_video_scenes w inp out csv s = Raise e c" "quiet b c"
        using a b quiet_makedirs[of b "out @ [''videos'']" True]
        by (simp_all add: split_video_scenes_def Let_def then_do_def)
      then show ?thesis using quiet_trans[OF quiet_trans[OF qa(1) qb(1)]] by blast
    next
      case c: (Ok uc c)
      have qc: "quiet b c" "\<forall>q. fs c q \<noteq> fs b q \<longrightarrow> fs c q = Some Dir"
        using makedirs_final[of b "out @ [''videos'']" True] c by simp_all
      have q: "quiet s c" using quiet_trans[OF quiet_trans[OF qa(1) qb(1)] qc(1)] .
      have kept: "\<forall>q. fs s q \<noteq> None \<longrightarrow> fs c q = fs s q" using q by (simp add: quiet_def)
      have new: "\<forall>q. fs c q \<noteq> fs s q \<longrightarrow> fs c q = Some Dir"
        using qa(2) qb(2) qc(2) by metis
      have names: "logged_names (fs c csv) = logged_names (fs s csv)"
        using logged_names_kept[OF kept new] .
      let ?loop = "\<lambda>P vids. for_each (split_one w inp (out @ [''images'']) (out @ [''videos'']) csv P) vids"
      let ?part = "then_do (\<lambda>s. if \<not> path_exists csv s
                      then then_do (open_write csv)
                             (\<lambda>u. writerow HeaderRow csv split_header) s
                      else Ok () s) (\<lambda>u.
        then_do (read_rows csv) (\<lambda>rows.
        then_do (next_row rows) (\<lambda>rest.
        then_do (first_cells rest) (\<lambda>cells.
        then_do (from_world (listdir w inp)) (\<lambda>vids.
        ?loop (set cells) vids)))))"
      have run: "split_video_scenes w inp out csv s = ?part c"
        using a b c by (simp add: split_video_scenes_def Let_def then_do_def)
      from split_ledger_part[of csv w inp ?loop c]
      show ?thesis
        unfolding run names using quiet_trans[OF q] by blast
    qed
  qed
qed

section \<open>Projections of the log\<close>

lemma for_each_project:
  assumes step: "\<And>x s u s'. x \<in> set xs \<Longrightarrow> body x s = Ok u s'
                   \<Longrightarrow> \<exists>evs. trace s' = trace s @ evs \<and> proj evs = T x"
    and hom: "\<And>a b. proj (a @ b) = proj a @ proj b"
    and run: "for_each body xs s = Ok u s'"
  shows "\<exists>evs. trace s' = trace s @ evs \<and> proj evs = concat (map T xs)"
  using step run
proof (induction xs arbitrary: s)
  case Nil
  have "proj [] = []" using hom[of "[]" "[]"] by simp
  then show ?case using Nil by simp
next
  case (Cons x xs)
  from Cons.prems(2) obtain u1 s1 where
    b: "body x s = Ok u1 s1" and r: "for_each body xs s1 = Ok u s'"
    by (auto split: result.splits)
  from Cons.prems(1)[OF _ b] obtain e1 where e1: "trace s1 = trace s @ e1" "proj e1 = T x"
    by auto
  from Cons.IH[OF _ r] Cons.prems(1) obtain e2 where e2: "trace s' = trace s1 @ e2"
      "proj e2 = concat (map T xs)"
    by auto
  show ?case using e1 e2 hom by auto
qed

lemma concat_single:
  assumes "distinct xs" "f \<in> set xs" "\<And>g. g \<in> set xs \<Longrightarrow> g \<noteq> f \<Longrightarrow> T g = []"
  shows "concat (map T xs) = T f"
  using assms
proof (induction xs)
  case Nil
  then show ?case by simp
next
  case (Cons x xs)
  show ?case
  proof (cases "x = f")
    case True
    then have "\<And>g. g \<in> set xs \<Longrightarrow> T g = []" using Cons.prems by auto
    then have "concat (map T xs) = []" by (induction xs) auto
    then show ?thesis using True by simp
  next
    case False
    then show ?thesis using Cons by auto
  qed
qed

lemma rows_of_append: "rows_of f (a @ b) = rows_of f a @ rows_of f b"
  by (induction a rule: rows_of.induct) auto

lemma artifacts_of_append: "artifacts_of f (a @ b) = artifacts_of f a @ artifacts_of f b"
  by (induction a rule: artifacts_of.induct) auto



lemma rows_of_rows: "rows_of f (map (LedgerRow f) rows) = rows"
  by (induction rows) auto

lemma rows_of_artifacts: "rows_of f (map (Artifact g) ps) = []"
  by (induction ps) auto

lemma artifacts_of_rows: "artifacts_of f (map (LedgerRow g) rows) = []"
  by (induction rows) auto

lemma artifacts_of_artifacts: "artifacts_of f (map (Artifact f) ps) = ps"
  by (induction ps) auto

lemma started_artifacts: "started (map (Artifact g) ps) = []"
  by (induction ps) auto

lemma started_rows: "started (map (LedgerRow g) rows) = []"
  by (induction rows) auto

lemma started_quiet: "list_all (\<lambda>e. about e = None) evs \<Longrightarrow> started evs = []"
  by (induction evs rule: started.induct) auto

lemma split_trace_projections:
  "started (split_trace w out f scenes) = [f]"
  "rows_of f (split_trace w out f scenes) = split_rows f scenes"
  "artifacts_of f (split_trace w out f scenes)
     = split_image_paths w out f (length scenes) @ split_clip_paths w out f (length scenes)"
  by (simp_all add: split_trace_def started_append started_artifacts started_rows
      rows_of_append rows_of_rows rows_of_artifacts
      artifacts_of_append artifacts_of_artifacts artifacts_of_rows)

lemma split_loop_Ok:
  assumes "for_each (split_one w inp (out @ [''images'']) (out @ [''videos'']) csv processed) vids s
             = Ok u s'"
  shows "trace s' = trace s @ concat (map (split_expected w inp out processed) vids)"
proof -
  have "\<exists>evs. trace s' = trace s @ evs
          \<and> (\<lambda>x. x) evs = concat (map (split_expected w inp out processed) vids)"
  proof (rule for_each_project[OF _ _ assms])
    fix x t v t'
    assume x: "split_one w inp (out @ [''images'']) (out @ [''videos'']) csv processed x t = Ok v t'"
    show "\<exists>evs. trace t' = trace t @ evs \<and> evs = split_expected w inp out processed x"
    proof (cases "\<not> endswith x video_exts \<or> fst (splitext x) \<in> processed")
      case True
      then show ?thesis using x split_one_skip[OF True] by (simp add: split_expected_def)
    next
      case False
      then show ?thesis using split_one_Ok[OF x]
        by (auto simp: split_expected_def scenes_of_def)
    qed
  qed simp
  then show ?thesis by simp
qed

lemma started_split_expected:
  "started (concat (map (split_expected w inp out processed) vids))
     = filter (\<lambda>f. endswith f video_exts \<and> fst (splitext f) \<notin> processed) vids"
  by (induction vids)
     (auto simp: started_append split_expected_def split_trace_projections)


section \<open>One turn of the loop of main\<close>

lemma video_to_audio_Ok:
  "video_to_audio w f i p s = Ok u s' \<Longrightarrow> trace s' = trace s @ [Artifact f p]"
  by (auto simp: video_to_audio_def split: option.splits node.splits dest: write_artifact_Ok)

lemma scene_step_Ok:
  assumes "then_do (scene_generator_next w f out x) (transcribe_scene w) s = Ok row s'"
  shows "trace s' = trace s @ scene_events out f (Suc (fst x))"
    and "row = scene_row w out f (Suc (fst x)) (snd x)"
    and "\<exists>res. transcriber w f (scene_audio_path out f (Suc (fst x))) = Inr res"
proof -
  obtain i st en where x: "x = (i, st, en)" by (cases x) auto
  let ?a = "scene_audio_path out f (Suc i)"
  let ?clip = "video_dir_of out f @ [''scenes''] @ [zfill 3 (str_nat (Suc i)) @ snd (splitext f)]"
  from assms obtain sc s1 where
    n: "scene_generator_next w f out x s = Ok sc s1" and t: "transcribe_scene w sc s1 = Ok row s'"
    by (auto simp: then_do_Ok)
  from n have va: "video_to_audio w f ?clip ?a s = Ok () s1"
    and sc: "sc = \<lparr>video = f, scene_nr = zfill 3 (str_nat (Suc i)), scene_path = ?clip,
                   image_path = video_dir_of out f @ [''images''] @ [zfill 3 (str_nat (Suc i)) @ ''.jpg''],
                   audio_path = ?a, start_time = st, end_time = en\<rparr>"
    by (auto simp: scene_generator_next_def x Let_def then_do_Ok scene_audio_path_def)
  have t1: "trace s1 = trace s @ [Artifact f ?a]" using video_to_audio_Ok[OF va] .
  from t obtain res where res: "transcriber w f ?a = Inr res"
    and s': "s' = s1\<lparr>trace := trace s1 @ [Transcribed f ?a]\<rparr>"
    and row: "row = [f, zfill 3 (str_nat (Suc i)), path_str ?clip,
                     path_str (video_dir_of out f @ [''images''] @ [zfill 3 (str_nat (Suc i)) @ ''.jpg'']),
                     timecode_str st, timecode_str en,
                     dict_get res ''text'' ''NO TRANSCRIPTION FOUND'']"
    by (auto simp: transcribe_scene_def sc then_do_Ok from_world_def emit_def Let_def
        split: sum.splits)
  show "trace s' = trace s @ scene_events out f (Suc (fst x))"
    using t1 s' by (simp add: scene_events_def x)
  show "row = scene_row w out f (Suc (fst x)) (snd x)"
    using row res by (simp add: scene_row_def x transcription_of_def dict_get_def)
  show "\<exists>res. transcriber w f (scene_audio_path out f (Suc (fst x))) = Inr res"
    using res by (auto simp: x)
qed

lemma accumulate_scenes_Ok:
  assumes "accumulate (\<lambda>x. then_do (scene_generator_next w f out x) (transcribe_scene w)) xs acc s
             = Ok rows s'"
  shows "trace s' = trace s @ concat (map (\<lambda>x. scene_events out f (Suc (fst x))) xs)
       \<and> rows = acc @ map (\<lambda>x. scene_row w out f (Suc (fst x)) (snd x)) xs
       \<and> (\<forall>x\<in>set xs. \<exists>res. transcriber w f (scene_audio_path out f (Suc (fst x))) = Inr res)"
  using assms
proof (induction xs arbitrary: acc s)
  case Nil
  then show ?case by simp
next
  case (Cons x xs)
  from Cons.prems obtain row s1 where
    b: "then_do (scene_generator_next w f out x) (transcribe_scene w) s = Ok row s1"
    and r: "accumulate (\<lambda>x. then_do (scene_generator_next w f out x) (transcribe_scene w)) xs
              (acc @ [row]) s1 = Ok rows s'"
    by (auto split: result.splits)
  from scene_step_Ok[OF b] Cons.IH[OF r] show ?case by auto
qed

lemma concat_enumerate_index:
  "concat (map (\<lambda>x. g (Suc (fst x))) (List.enumerate 0 xs))
     = concat (map g [1..<Suc (length xs)])"
  using map_enumerate_index[of "\<lambda>k sc. g k" xs] by simp

lemma makedirs_new_Ok:
  "makedirs p False s = Ok u s' \<Longrightarrow> trace s' = trace s @ [Makedirs p]"
  by (auto simp: makedirs_def split: if_splits option.splits node.splits)

lemma rmtree_Ok: "rmtree p s = Ok u s' \<Longrightarrow> trace s' = trace s @ [Rmtree p]"
  by (auto simp: rmtree_def split: option.splits node.splits)

lemma for_each_Cons: "for_each body (x # xs) = then_do (body x) (\<lambda>u. for_each body xs)"
  by (rule ext) (simp add: then_do_def)

lemma for_each_Nil_Ok: "for_each body [] s = Ok u s' \<longleftrightarrow> s' = s"
  by auto

lemma fresh_dirs_Ok:
  assumes "fresh_dirs vd s = Ok u s'"
  shows "trace s' = trace s @ dir_events vd (path_exists vd s)"
proof -
  from assms obtain s0 s1 s2 s3 where
    r: "(if path_exists vd s then rmtree vd s else Ok () s) = Ok () s0"
    and m: "makedirs vd False s0 = Ok () s1" "makedirs (vd @ [''scenes'']) False s1 = Ok () s2"
      "makedirs (vd @ [''images'']) False s2 = Ok () s3"
      "makedirs (vd @ [''audio'']) False s3 = Ok () s'"
    by (auto simp: fresh_dirs_def Let_def then_do_Ok for_each_Cons simp del: for_each.simps(2))
  have "trace s0 = trace s @ (if path_exists vd s then [Rmtree vd] else [])"
    using r by (auto dest: rmtree_Ok split: if_splits)
  then show ?thesis
    using m[THEN makedirs_new_Ok] by (simp add: dir_events_def)
qed

lemma dir_events_are: "list_all is_dir_event (dir_events vd b)"
  by (simp add: dir_events_def is_dir_event_def)

lemma scene_generator_start_Ok:
  assumes "scene_generator_start w inp f out s = Ok scenes s'"
  shows "detect_scenes w (inp @ [f]) = Inr scenes"
    and "trace s' = trace s @ dir_events (video_dir_of out f) (path_exists (video_dir_of out f) s)
           @ map (Artifact f) (scene_image_paths w out f (length scenes))
           @ map (Artifact f) (scene_clip_paths w out f (length scenes))"
proof -
  let ?vd = "video_dir_of out f"
  from assms obtain s1 s2 s3 where
    d: "from_world (detect_scenes w (inp @ [f])) s = Ok scenes s1"
    and fd: "fresh_dirs ?vd s1 = Ok () s2"
    and si: "save_images w f scenes [SCENE_NUMBER] (?vd @ [''images'']) s2 = Ok () s3"
    and sv: "split_video_ffmpeg w f scenes [SCENE_NUMBER, Lit (snd (splitext f))]
               (?vd @ [''scenes'']) s3 = Ok () s'"
    by (auto simp: scene_generator_start_def Let_def then_do_Ok)
  from d have s1: "s1 = s"
    by (auto simp: from_world_def split: sum.splits)
  from d show "detect_scenes w (inp @ [f]) = Inr scenes"
    by (auto simp: from_world_def split: sum.splits)
  show "trace s' = trace s @ dir_events ?vd (path_exists ?vd s)
           @ map (Artifact f) (scene_image_paths w out f (length scenes))
           @ map (Artifact f) (scene_clip_paths w out f (length scenes))"
    using fresh_dirs_Ok[OF fd] save_images_Ok[OF si] split_video_ffmpeg_Ok[OF sv] s1
    by (simp add: scene_image_paths_def scene_clip_paths_def)
qed

lemma main_one_Ok:
  assumes "main_one w out inp f s = Ok u s'"
  shows "\<exists>scenes. detect_scenes w (inp @ [f]) = Inr scenes
           \<and> trace s' = trace s @ Started f
                 # dir_events (video_dir_of out f) (path_exists (video_dir_of out f) s)
                 @ scenes_trace w out f scenes
           \<and> (\<forall>k\<in>set [1..<Suc (length scenes)].
                 \<exists>res. transcriber w f (scene_audio_path out f k) = Inr res)"
proof -
  from assms obtain s1 scenes s2 rows s3 where
    e: "emit (Started f) s = Ok () s1"
    and st: "scene_generator_start w inp f out s1 = Ok scenes s2"
    and ac: "accumulate (\<lambda>x. then_do (scene_generator_next w f out x) (transcribe_scene w))
               (List.enumerate 0 scenes) [] s2 = Ok rows s3"
    and wr: "for_each (writerow (LedgerRow f) (out @ [''scenes.csv''])) rows s3 = Ok u s'"
    by (auto simp: main_one_def Let_def then_do_Ok)
  have s1: "s1 = s\<lparr>trace := trace s @ [Started f]\<rparr>" using e by (auto simp: emit_def)
  then have ex: "path_exists (video_dir_of out f) s1 = path_exists (video_dir_of out f) s"
    by (simp add: path_exists_def)
  note a = accumulate_scenes_Ok[OF ac]
  have rows: "rows = scene_rows w out f scenes"
    using a map_enumerate_index[of "\<lambda>k sc. scene_row w out f k sc" scenes]
    by (simp add: scene_rows_def)
  have t3: "trace s3 = trace s2 @ concat (map (scene_events out f) [1..<Suc (length scenes)])"
    using a concat_enumerate_index[of "scene_events out f" scenes] by simp
  have res: "\<forall>k\<in>set [1..<Suc (length scenes)].
                 \<exists>res. transcriber w f (scene_audio_path out f k) = Inr res"
  proof
    fix k assume "k \<in> set [1..<Suc (length scenes)]"
    then have "k - 1 < length scenes" "Suc (k - 1) = k" by auto
    then have "(k - 1, scenes ! (k - 1)) \<in> set (List.enumerate 0 scenes)"
      by (auto simp: in_set_enumerate_eq)
    with a \<open>Suc (k - 1) = k\<close> show "\<exists>res. transcriber w f (scene_audio_path out f k) = Inr res"
      by fastforce
  qed
  have t': "trace s' = trace s3 @ map (LedgerRow f) rows"
    using for_each_writerow[of "LedgerRow f" "out @ [''scenes.csv'']" "\<lambda>x. x" rows s3] wr
    by simp
  show ?thesis
    using scene_generator_start_Ok[OF st] s1 ex t3 t' rows res
    by (auto simp: scenes_trace_def)
qed

lemma work_ofD:
  "work_of f e \<Longrightarrow> \<not> is_row e \<and> (about e = Some f \<or> about e = None) \<and> started [e] = []"
  by (cases e) (auto simp: work_of_def is_row_def)

lemma logs_fresh_dirs: "steps (logs (work_of f)) (fresh_dirs vd)"
  unfolding fresh_dirs_def Let_def
  by (intro steps_then_do steps_if steps_for_each logs_trans logs_refl logs_rmtree logs_makedirs
      steps_Ok) (simp_all add: work_of_def)

lemma logs_scene_generator_start: "steps (logs (work_of f)) (scene_generator_start w inp f out)"
  unfolding scene_generator_start_def Let_def
  by (intro steps_then_do logs_trans logs_refl steps_from_world logs_fresh_dirs logs_save_images
      logs_split_video_ffmpeg steps_Ok) (simp_all add: work_of_def)

lemma logs_scene_step:
  "steps (logs (work_of f)) (then_do (scene_generator_next w f out x) (transcribe_scene w))"
proof -
  obtain i st en where x: "x = (i, st, en)" by (cases x) auto
  have a: "steps (logs (work_of f)) (video_to_audio w f c a)" for c a
    by (rule logs_video_to_audio) (simp add: work_of_def)
  show ?thesis
    unfolding steps_def
  proof
    fix s
    let ?c = "video_dir_of out f @ [''scenes''] @ [zfill 3 (str_nat (i + 1)) @ snd (splitext f)]"
    let ?a = "video_dir_of out f @ [''audio''] @ [zfill 3 (str_nat (i + 1)) @ ''.mp3'']"
    from logsD[OF a, of ?c ?a s] obtain evs where
      evs: "trace (final (video_to_audio w f ?c ?a s)) = trace s @ evs" "list_all (work_of f) evs"
      by blast
    show "logs (work_of f) s
            (final (then_do (scene_generator_next w f out x) (transcribe_scene w) s))"
    proof (cases "video_to_audio w f ?c ?a s")
      case (Raise e s1)
      then show ?thesis using evs
        by (auto simp: scene_generator_next_def x Let_def then_do_def logs_def)
    next
      case (Ok u s1)
      then show ?thesis using evs
        by (cases "transcriber w f ?a")
           (auto simp: scene_generator_next_def x Let_def then_do_def logs_def
             transcribe_scene_def from_world_def emit_def work_of_def)
    qed
  qed
qed

lemma logs_scenes:
  "steps (logs (work_of f))
     (accumulate (\<lambda>x. then_do (scene_generator_next w f out x) (transcribe_scene w)) xs acc)"
  by (rule steps_accumulate[OF logs_refl logs_trans]) (rule logs_scene_step)

lemma main_one_Raise:
  assumes "main_one w out inp f s = Raise e s'"
  shows "\<exists>evs. trace s' = trace s @ Started f # evs \<and> list_all (work_of f) evs"
proof -
  define s1 where "s1 = s\<lparr>trace := trace s @ [Started f]\<rparr>"
  let ?start = "scene_generator_start w inp f out"
  let ?acc = "\<lambda>scenes. accumulate (\<lambda>x. then_do (scene_generator_next w f out x) (transcribe_scene w))
               (List.enumerate 0 scenes) []"
  let ?rows = "\<lambda>rows. for_each (\<lambda>x. writerow (LedgerRow f) (out @ [''scenes.csv'']) x) rows"
  have r: "then_do ?start (\<lambda>scenes. then_do (?acc scenes) ?rows) s1 = Raise e s'"
    using assms by (simp add: main_one_def Let_def then_do_def emit_def s1_def)
  have l1: "\<exists>evs. trace (final (?start s1)) = trace s1 @ evs \<and> list_all (work_of f) evs"
    by (rule logsD[OF logs_scene_generator_start])
  have l2: "\<exists>evs. trace (final (?acc scenes s2)) = trace s2 @ evs \<and> list_all (work_of f) evs"
    for scenes s2
    by (rule logsD[OF logs_scenes])
  from r consider
    (a) "?start s1 = Raise e s'"
  | (b) scenes s2 where "?start s1 = Ok scenes s2" "?acc scenes s2 = Raise e s'"
  | (c) rows s3 where "?rows rows s3 = Raise e s'"
    by (auto simp: then_do_Raise)
  then have "\<exists>evs. trace s' = trace s1 @ evs \<and> list_all (work_of f) evs"
  proof cases
    case a
    then show ?thesis using l1 by simp
  next
    case b
    then show ?thesis using l1 l2[of scenes s2] by auto
  next
    case c
    then show ?thesis
      using for_each_writerow_Raise[of "LedgerRow f" "out @ [''scenes.csv'']" "\<lambda>x. x" rows s3 e s']
      by simp
  qed
  then show ?thesis by (auto simp: s1_def)
qed

lemma set_scene_events:
  "set (concat (map (scene_events out f) ks))
     = Artifact f ` set (map (scene_audio_path out f) ks)
       \<union> Transcribed f ` set (map (scene_audio_path out f) ks)"
  by (induction ks) (auto simp: scene_events_def)

lemma no_row_scene_events: "list_all (\<lambda>e. \<not> is_row e) (concat (map (scene_events out f) ks))"
  by (induction ks) (auto simp: scene_events_def is_row_def)

lemma main_produced_mono:
  assumes "main_produced w i out f X" "X \<subseteq> Y"
  shows "main_produced w i out f Y"
proof -
  from assms(1) obtain scenes where
    a: "detect_scenes w (i @ [f]) = Inr scenes"
      "Artifact f ` set (scene_image_paths w out f (length scenes)
                             @ scene_clip_paths w out f (length scenes)
                             @ map (scene_audio_path out f) [1..<Suc (length scenes)]) \<subseteq> X"
      "Transcribed f ` set (map (scene_audio_path out f) [1..<Suc (length scenes)]) \<subseteq> X"
    unfolding main_produced_def by (elim exE conjE)
  show ?thesis
    unfolding main_produced_def
    by (intro exI[of _ scenes] conjI a(1) subset_trans[OF a(2) assms(2)]
        subset_trans[OF a(3) assms(2)])
qed

lemma late_rows_after:
  assumes "list_all (\<lambda>e. \<not> is_row e) head" "E f (set head)"
    and mono: "\<And>X Y. E f X \<Longrightarrow> X \<subseteq> Y \<Longrightarrow> E f Y"
  shows "late E (head @ map (LedgerRow f) rows)"
  unfolding late_def
proof (intro allI impI)
  fix pre g row post
  assume eq: "head @ map (LedgerRow f) rows = pre @ LedgerRow g row # post"
  from no_row_prefix[OF assms(1) eq] obtain zs where
    zs: "pre = head @ zs" "map (LedgerRow f) rows = zs @ LedgerRow g row # post"
    by blast
  have "LedgerRow g row \<in> set (map (LedgerRow f) rows)"
    using zs(2) by simp
  then have g: "g = f" by auto
  have "set head \<subseteq> set pre" using zs(1) by auto
  then show "E g (set pre)" using mono[OF assms(2)] g by simp
qed

lemma main_head:
  assumes head_def: "head = Started f # dirs @ map (Artifact f) imgs @ map (Artifact f) clips
                     @ concat (map (scene_events out f) ks)"
    and "list_all (\<lambda>e. \<not> is_row e) dirs"
  shows "Artifact f ` set (imgs @ clips @ map (scene_audio_path out f) ks) \<subseteq> set head"
    and "Transcribed f ` set (map (scene_audio_path out f) ks) \<subseteq> set head"
    and "list_all (\<lambda>e. \<not> is_row e) head"
proof -
  define tail where "tail = concat (map (scene_events out f) ks)"
  have c: "Artifact f ` set (map (scene_audio_path out f) ks) \<subseteq> set tail"
    "Transcribed f ` set (map (scene_audio_path out f) ks) \<subseteq> set tail"
    unfolding tail_def using set_scene_events[of out f ks] by blast+
  have h: "head = Started f # dirs @ map (Artifact f) imgs @ map (Artifact f) clips @ tail"
    unfolding head_def tail_def ..
  have sub: "set tail \<subseteq> set head" "Artifact f ` set imgs \<subseteq> set head"
    "Artifact f ` set clips \<subseteq> set head"
    unfolding h by auto
  show "Artifact f ` set (imgs @ clips @ map (scene_audio_path out f) ks) \<subseteq> set head"
    using sub c(1) by (auto simp: image_Un)
  show "Transcribed f ` set (map (scene_audio_path out f) ks) \<subseteq> set head"
    using sub(1) c(2) by blast
  have m: "list_all (\<lambda>e. \<not> is_row e) (map (Artifact f) ps)" for ps
    by (induction ps) (auto simp: is_row_def)
  have t: "list_all (\<lambda>e. \<not> is_row e) tail"
    unfolding tail_def by (rule no_row_scene_events)
  show "list_all (\<lambda>e. \<not> is_row e) head"
    unfolding h using assms(2) m[of imgs] m[of clips] t
    by (simp add: is_row_def)
qed

lemma no_row_dir_events: "list_all (\<lambda>e. \<not> is_row e) (dir_events vd b)"
  by (simp add: dir_events_def is_row_def)

lemma late_main_trace:
  assumes "detect_scenes w (inp @ [f]) = Inr scenes"
  shows "late (main_produced w inp out)
           (Started f # dir_events vd b @ scenes_trace w out f scenes)"
proof -
  define ks where "ks = [1..<Suc (length scenes)]"
  define imgs where "imgs = scene_image_paths w out f (length scenes)"
  define clips where "clips = scene_clip_paths w out f (length scenes)"
  define head where "head = Started f # dir_events vd b @ map (Artifact f) imgs
                      @ map (Artifact f) clips @ concat (map (scene_events out f) ks)"
  note h = main_head[OF head_def no_row_dir_events]
  have "main_produced w inp out f (set head)"
    unfolding main_produced_def
    using assms h(1,2) unfolding ks_def imgs_def clips_def by blast
  from late_rows_after[where E = "main_produced w inp out" and rows = "scene_rows w out f scenes",
      OF h(3) this main_produced_mono]
  show ?thesis
    unfolding head_def ks_def imgs_def clips_def scenes_trace_def
    by (simp only: append_Cons append_assoc)
qed

lemma about_scenes_trace:
  "list_all (\<lambda>e. about e = Some f) (scenes_trace w out f scenes)"
proof -
  have "list_all (\<lambda>e. about e = Some f) (concat (map (scene_events out f) ks))" for ks
    by (induction ks) (auto simp: scene_events_def)
  moreover have "list_all (\<lambda>e. about e = Some f) (map (Artifact f) ps)" for ps
    by (induction ps) auto
  moreover have "list_all (\<lambda>e. about e = Some f) (map (LedgerRow f) rows)" for rows
    by (induction rows) auto
  ultimately show ?thesis
    unfolding scenes_trace_def by (simp del: upt_Suc)
qed

lemma about_dir_events: "list_all (\<lambda>e. about e = None) (dir_events vd b)"
  by (simp add: dir_events_def)

text \<open>What one turn of the loop of main adds to the log, however it ends.\<close>

lemma main_one_final:
  "\<exists>evs. trace (final (main_one w out inp g s)) = trace s @ Started g # evs
        \<and> list_all (\<lambda>e. about e = Some g \<or> about e = None) evs
        \<and> late (main_produced w inp out) (Started g # evs)"
proof (cases "main_one w out inp g s")
  case (Ok u s')
  from main_one_Ok[OF Ok] obtain scenes where
    sc: "detect_scenes w (inp @ [g]) = Inr scenes"
      "trace s' = trace s @ Started g
          # dir_events (video_dir_of out g) (path_exists (video_dir_of out g) s)
          @ scenes_trace w out g scenes"
    by blast
  have "list_all (\<lambda>e. about e = Some g \<or> about e = None)
          (dir_events (video_dir_of out g) (path_exists (video_dir_of out g) s)
             @ scenes_trace w out g scenes)"
    using about_scenes_trace[of g w out scenes]
      about_dir_events[of "video_dir_of out g" "path_exists (video_dir_of out g) s"]
    by (auto simp: list_all_iff)
  then show ?thesis using Ok sc late_main_trace[OF sc(1)] by auto
next
  case (Raise e s')
  from main_one_Raise[OF Raise] obtain evs where
    evs: "trace s' = trace s @ Started g # evs" "list_all (work_of g) evs" by blast
  have "list_all (\<lambda>e. \<not> is_row e) (Started g # evs)"
    using evs(2) work_ofD by (auto simp: list_all_iff is_row_def)
  then have "late (main_produced w inp out) (Started g # evs)" by (rule late_no_rows)
  moreover have "list_all (\<lambda>e. about e = Some g \<or> about e = None) evs"
    using evs(2) work_ofD by (auto simp: list_all_iff)
  ultimately show ?thesis using Raise evs by auto
qed

section \<open>Every event of a run\<close>

lemma returnsD: "returns r \<Longrightarrow> \<exists>x. r = Ok x (final r)"
  by (cases r) (auto simp: returns_def)

lemma late_trans:
  "(\<And>f X Y. E f X \<Longrightarrow> X \<subseteq> Y \<Longrightarrow> E f Y) \<Longrightarrow> transp (grows (late E))"
  by (rule grows_trans) (rule late_append)

lemma late_refl: "reflp (grows (late E))"
  by (rule grows_refl) (rule late_Nil)

lemma steps_split_one_late:
  "steps (grows (late (split_produced w inp out)))
     (split_one w inp (out @ [''images'']) (out @ [''videos'']) csv processed g)"
  unfolding steps_def grows_def using split_one_final[of w inp out csv processed g] by blast

lemma steps_split_one_event:
  "steps (logs (split_event processed))
     (split_one w inp (out @ [''images'']) (out @ [''videos'']) csv processed g)"
  unfolding steps_def logs_def
proof
  fix s
  from split_one_final[of w inp out csv processed g s] obtain evs where
    evs: "trace (final (split_one w inp (out @ [''images'']) (out @ [''videos'']) csv processed g s))
            = trace s @ evs"
      "list_all (\<lambda>e. about e = Some g) evs"
      "\<not> endswith g video_exts \<or> fst (splitext g) \<in> processed \<longrightarrow> evs = []"
    by blast
  have "list_all (split_event processed) evs"
    using evs(2,3) by (cases "evs = []") (auto simp: list_all_iff split_event_def)
  then show "\<exists>evs. trace (final (split_one w inp (out @ [''images'']) (out @ [''videos'']) csv processed g s))
                 = trace s @ evs \<and> list_all (split_event processed) evs"
    using evs(1) by blast
qed

lemma quiet_events:
  assumes "quiet s s1"
  obtains e0 where "trace s1 = trace s @ e0" "list_all (\<lambda>e. about e = None) e0"
  using assms by (auto simp: quiet_def logs_def)

lemma about_None_no_row: "list_all (\<lambda>e. about e = None) evs \<Longrightarrow> list_all (\<lambda>e. \<not> is_row e) evs"
proof (induction evs)
  case Nil
  then show ?case by simp
next
  case (Cons e evs)
  then show ?case by (cases e) (auto simp: is_row_def)
qed

text \<open>Every event of a run of split\_video\_scenes, however the run ends.\<close>

lemma split_events:
  "\<exists>evs. trace (final (split_video_scenes w inp out csv s)) = trace s @ evs
         \<and> list_all (split_event (logged_names (fs s csv))) evs
         \<and> late (split_produced w inp out) evs"
proof -
  let ?P = "split_event (logged_names (fs s csv))"
  let ?E = "split_produced w inp out"
  from split_video_scenes_cases[of w inp out csv s]
  consider (fails) e s1 where "split_video_scenes w inp out csv s = Raise e s1" "quiet s s1"
    | (loops) s1 vids where "quiet s s1"
        "split_video_scenes w inp out csv s
           = for_each (split_one w inp (out @ [''images'']) (out @ [''videos'']) csv
                         (logged_names (fs s csv))) vids s1"
    by blast
  then show ?thesis
  proof cases
    case fails
    from quiet_events[OF fails(2)] obtain e0 where
      e0: "trace s1 = trace s @ e0" "list_all (\<lambda>e. about e = None) e0" by blast
    have "list_all ?P e0" using e0(2) by (auto simp: list_all_iff split_event_def)
    moreover have "late ?E e0" using about_None_no_row[OF e0(2)] by (rule late_no_rows)
    ultimately show ?thesis using fails(1) e0(1) by auto
  next
    case loops
    let ?loop = "for_each (split_one w inp (out @ [''images'']) (out @ [''videos'']) csv
                         (logged_names (fs s csv))) vids"
    from quiet_events[OF loops(1)] obtain e0 where
      e0: "trace s1 = trace s @ e0" "list_all (\<lambda>e. about e = None) e0" by blast
    have p0: "list_all ?P e0" using e0(2) by (auto simp: list_all_iff split_event_def)
    have l0: "late ?E e0" using about_None_no_row[OF e0(2)] by (rule late_no_rows)
    have "steps (logs ?P) ?loop"
      by (rule steps_for_each[OF logs_refl logs_trans]) (rule steps_split_one_event)
    from logsD[OF this, of s1] obtain e1 where
      e1: "trace (final (?loop s1)) = trace s1 @ e1" "list_all ?P e1" by blast
    have "steps (grows (late ?E)) ?loop"
      by (rule steps_for_each[OF late_refl late_trans[OF split_produced_mono]])
         (auto intro: steps_split_one_late)
    from stepsD[OF this, of s1] e1(1) have l1: "late ?E e1"
      by (auto simp: grows_def)
    have "late ?E (e0 @ e1)"
      by (rule late_append[OF _ l0 l1]) (rule split_produced_mono)
    then show ?thesis using loops(2) e0(1) e1 p0 by auto
  qed
qed

lemma steps_main_one_late:
  "steps (grows (late (main_produced w inp out))) (main_one w out inp g)"
  unfolding steps_def grows_def using main_one_final[of w out inp g] by blast

lemma steps_main_one_event:
  "g \<in> set files \<Longrightarrow> steps (logs (main_event files)) (main_one w out inp g)"
  unfolding steps_def logs_def
proof
  fix s
  assume g: "g \<in> set files"
  from main_one_final[of w out inp g s] obtain evs where
    evs: "trace (final (main_one w out inp g s)) = trace s @ Started g # evs"
      "list_all (\<lambda>e. about e = Some g \<or> about e = None) evs"
    by blast
  have "list_all (main_event files) (Started g # evs)"
    using evs(2) g by (auto simp: list_all_iff main_event_def)
  then show "\<exists>evs. trace (final (main_one w out inp g s)) = trace s @ evs
               \<and> list_all (main_event files) evs"
    using evs(1) by blast
qed

text \<open>Every event of a run of main, however the run ends.\<close>

lemma main_events:
  "\<exists>evs. trace (final (main w out inp files s)) = trace s @ evs
         \<and> list_all (main_event files) evs
         \<and> late (main_produced w inp out) evs"
proof (cases "open_append (out @ [''scenes.csv'']) s")
  case (Raise e s1)
  then have "s1 = s" by (auto simp: open_append_def split: option.splits node.splits)
  then have "final (main w out inp files s) = s"
    using Raise by (simp add: main_def then_do_def)
  then show ?thesis by (simp add: late_Nil)
next
  case (Ok u s1)
  let ?loop = "for_each (main_one w out inp) files"
  let ?E = "main_produced w inp out"
  have t: "trace s1 = trace s" using open_append_trace[OF Ok] .
  have run: "main w out inp files s = ?loop s1"
    using Ok by (simp add: main_def then_do_def)
  have "steps (logs (main_event files)) ?loop"
    by (rule steps_for_each[OF logs_refl logs_trans]) (rule steps_main_one_event)
  from logsD[OF this, of s1] obtain e1 where
    e1: "trace (final (?loop s1)) = trace s1 @ e1" "list_all (main_event files) e1" by blast
  have "steps (grows (late ?E)) ?loop"
    by (rule steps_for_each[OF late_refl late_trans[OF main_produced_mono]])
       (auto intro: steps_main_one_late)
  from stepsD[OF this, of s1] e1(1) have "late ?E e1"
    by (auto simp: grows_def)
  then show ?thesis using run e1 t by auto
qed

lemma count_list_filter:
  "count_list (filter P xs) f = (if P f then count_list xs f else 0)"
  by (induction xs) auto

lemma started_subset: "f \<in> set (started evs) \<Longrightarrow> Started f \<in> set evs"
  by (induction evs rule: started.induct) auto

lemma split_started_Ok:
  assumes "returns (split_video_scenes w inp out csv s)" "listdir w inp = Inr vids"
  shows "\<exists>evs. trace (final (split_video_scenes w inp out csv s)) = trace s @ evs
           \<and> started evs = filter (\<lambda>f. endswith f video_exts
                                       \<and> fst (splitext f) \<notin> logged_names (fs s csv)) vids"
proof -
  from returnsD[OF assms(1)] obtain u where
    ok: "split_video_scenes w inp out csv s = Ok u (final (split_video_scenes w inp out csv s))"
    by blast
  let ?s' = "final (split_video_scenes w inp out csv s)"
  from split_video_scenes_cases[of w inp out csv s] ok assms(2) obtain s1 where
    q: "quiet s s1"
    and run: "for_each (split_one w inp (out @ [''images'']) (out @ [''videos'']) csv
                         (logged_names (fs s csv))) vids s1 = Ok u ?s'"
    by auto
  from quiet_events[OF q] obtain e0 where
    e0: "trace s1 = trace s @ e0" "list_all (\<lambda>e. about e = None) e0" by blast
  show ?thesis
    using split_loop_Ok[OF run] e0 started_split_expected[of w inp out "logged_names (fs s csv)" vids]
    by (simp add: started_append started_quiet)
qed

section \<open>The to-do lists\<close>

text \<open>
  Claim C1, as amended. The videos split\_video.py handles in a run that returns are,
  in the order of the listing, exactly the files of the listing that end with one of
  the four extensions and whose bare name is not a first cell of the ledger below its
  header. The to-do list of transcribe.py is made of the files of the listing that end
  with one of the four extensions and whose full name, extension included, is not a
  first cell of the ledger, header cell included. In both, a file is taken as many
  times as the listing has it, hence once, and no other file is taken.
\<close>

theorem todo_lists:
  "(returns (split_video_scenes w input_folder output_folder csv_file s)
      \<and> listdir w input_folder = Inr vids
     \<longrightarrow> (\<exists>evs. trace (final (split_video_scenes w input_folder output_folder csv_file s))
                   = trace s @ evs
            \<and> started evs = filter (\<lambda>f. endswith f video_exts
                    \<and> fst (splitext f) \<notin> logged_names (fs s csv_file)) vids
            \<and> (\<forall>f. count_list (started evs) f
                    = (if endswith f video_exts \<and> fst (splitext f) \<notin> logged_names (fs s csv_file)
                       then count_list vids f else 0))))
   \<and> scan done [] files = filter (\<lambda>f. endswith f video_exts \<and> f \<notin> set done) files
   \<and> (\<forall>f. count_list (scan done [] files) f
          = (if endswith f video_exts \<and> f \<notin> set done then count_list files f else 0))"
proof (intro conjI impI)
  assume a: "returns (split_video_scenes w input_folder output_folder csv_file s)
      \<and> listdir w input_folder = Inr vids"
  from split_started_Ok[of w input_folder output_folder csv_file s vids] a
  obtain evs where
    evs: "trace (final (split_video_scenes w input_folder output_folder csv_file s)) = trace s @ evs"
      "started evs = filter (\<lambda>f. endswith f video_exts
                    \<and> fst (splitext f) \<notin> logged_names (fs s csv_file)) vids"
    by blast
  show "\<exists>evs. trace (final (split_video_scenes w input_folder output_folder csv_file s))
                   = trace s @ evs
            \<and> started evs = filter (\<lambda>f. endswith f video_exts
                    \<and> fst (splitext f) \<notin> logged_names (fs s csv_file)) vids
            \<and> (\<forall>f. count_list (started evs) f
                    = (if endswith f video_exts \<and> fst (splitext f) \<notin> logged_names (fs s csv_file)
                       then count_list vids f else 0))"
    using evs by (intro exI[of _ evs]) (simp add: count_list_filter)
next
  show "scan done [] files = filter (\<lambda>f. endswith f video_exts \<and> f \<notin> set done) files"
    by (simp add: scan_filter)
next
  show "\<forall>f. count_list (scan done [] files) f
          = (if endswith f video_exts \<and> f \<notin> set done then count_list files f else 0)"
    by (simp add: scan_filter count_list_filter)
qed

theorem todo_lists_witness:
  "returns (split_video_scenes example_world [''vids''] [''vids-split''] [''ledger.csv''] empty_state)
   \<and> listdir example_world [''vids''] = Inr [''a.mp4'', ''notes.txt'', ''x.MP4'']
   \<and> (\<exists>evs. trace (final (split_video_scenes example_world [''vids''] [''vids-split'']
                             [''ledger.csv''] empty_state)) = trace empty_state @ evs
          \<and> started evs = [''a.mp4''])
   \<and> scan [''video'', ''b.mp4''] [] [''a.mp4'', ''b.mp4'', ''notes.txt''] = [''a.mp4'']"
proof -
  have h: "returns (split_video_scenes example_world [''vids''] [''vids-split'']
                      [''ledger.csv''] empty_state)"
    by code_simp
  have l: "listdir example_world [''vids''] = Inr [''a.mp4'', ''notes.txt'', ''x.MP4'']"
    by (simp add: example_world_def)
  have f: "filter (\<lambda>f. endswith f video_exts
              \<and> fst (splitext f) \<notin> logged_names (fs empty_state [''ledger.csv'']))
             [''a.mp4'', ''notes.txt'', ''x.MP4''] = [''a.mp4'']"
    by code_simp
  have g: "filter (\<lambda>f. endswith f video_exts \<and> f \<notin> set [''video'', ''b.mp4''])
             [''a.mp4'', ''b.mp4'', ''notes.txt''] = [''a.mp4'']"
    by code_simp
  from todo_lists[of example_world "[''vids'']" "[''vids-split'']" "[''ledger.csv'']" empty_state
      "[''a.mp4'', ''notes.txt'', ''x.MP4'']" "[''video'', ''b.mp4'']"
      "[''a.mp4'', ''b.mp4'', ''notes.txt'']"] h l
  show ?thesis unfolding f g by blast
qed

text \<open>
  Claim C1 as stated fails for transcribe.py: with \<^verbatim>\<open>a.mp4\<close> logged, the bare name
  \<^verbatim>\<open>a\<close> is not among the names of the ledger, and the file is still left out.
\<close>

theorem todo_bare_name_counterexample:
  "init_folder [''out''] logged_state = Ok [''video'', ''a.mp4''] logged_state
   \<and> endswith ''a.mp4'' video_exts
   \<and> fst (splitext ''a.mp4'') \<notin> set [''video'', ''a.mp4'']
   \<and> scan [''video'', ''a.mp4''] [] [''a.mp4''] = []"
proof -
  have "init_folder [''out''] logged_state = Ok [''video'', ''a.mp4''] logged_state"
    using init_folder_existing(3)[of logged_state "[''out'']"
        "[[''a.mp4'', ''001'', ''out/videos/a/scenes/001.mp4'', ''out/videos/a/images/001.jpg'',
           ''00:00:00.000'', ''00:00:01.000'', ''hello'']]"]
    by (simp add: logged_state_def)
  moreover have "endswith ''a.mp4'' video_exts" by code_simp
  moreover have "fst (splitext ''a.mp4'') \<notin> set [''video'', ''a.mp4'']" by code_simp
  moreover have "scan [''video'', ''a.mp4''] [] [''a.mp4''] = []" by code_simp
  ultimately show ?thesis by blast
qed

text \<open>
  Claim C7. A file that ends with one of the four extensions only when its case is
  ignored is in neither to-do list. A file that the ledger holds (by its full name in
  transcribe.py, by its bare name in split\_video.py) is in neither to-do list,
  whatever the case of its extension; for split\_video.py this holds however the run
  ends.
\<close>

theorem case_sensitive_extensions:
  "(endswith (lower f) video_exts \<and> \<not> endswith f video_exts
     \<longrightarrow> f \<notin> set (scan done [] files)
         \<and> (\<forall>evs. trace (final (split_video_scenes w input_folder output_folder csv_file s))
                     = trace s @ evs \<longrightarrow> f \<notin> set (started evs)))
   \<and> (g \<in> set done \<longrightarrow> g \<notin> set (scan done [] files))
   \<and> (fst (splitext h) \<in> logged_names (fs s csv_file)
     \<longrightarrow> (\<forall>evs. trace (final (split_video_scenes w input_folder output_folder csv_file s))
                     = trace s @ evs \<longrightarrow> h \<notin> set (started evs)))"
proof -
  have skip: "x \<notin> set (started evs)"
    if "\<not> endswith x video_exts \<or> fst (splitext x) \<in> logged_names (fs s csv_file)"
      and "trace (final (split_video_scenes w input_folder output_folder csv_file s)) = trace s @ evs"
    for x evs
  proof
    assume "x \<in> set (started evs)"
    then have m: "Started x \<in> set evs" by (rule started_subset)
    from split_events[of w input_folder output_folder csv_file s] that(2)
    have "list_all (split_event (logged_names (fs s csv_file))) evs" by auto
    with m have "split_event (logged_names (fs s csv_file)) (Started x)"
      by (auto simp: list_all_iff)
    then show False using that(1) by (simp add: split_event_def)
  qed
  show ?thesis using skip by (auto simp: scan_filter)
qed

theorem case_sensitive_extensions_witness:
  "endswith (lower ''x.MP4'') video_exts \<and> \<not> endswith ''x.MP4'' video_exts
   \<and> ''x.MP4'' \<notin> set (scan [''video''] [] [''a.mp4'', ''x.MP4''])
   \<and> ''a.mp4'' \<in> set [''video'', ''a.mp4'']
   \<and> ''a.mp4'' \<notin> set (scan [''video'', ''a.mp4''] [] [''a.mp4'', ''x.MP4''])
   \<and> fst (splitext ''a.MP4'') \<in> logged_names (fs split_logged_state [''ledger.csv''])
   \<and> ''a.MP4'' \<notin> set (started (trace (final (split_video_scenes example_world [''vids'']
                                   [''vids-split''] [''ledger.csv''] split_logged_state))))"
proof -
  have a: "endswith (lower ''x.MP4'') video_exts \<and> \<not> endswith ''x.MP4'' video_exts"
    by code_simp
  have b: "fst (splitext ''a.MP4'') \<in> logged_names (fs split_logged_state [''ledger.csv''])"
    by code_simp
  have t: "trace (final (split_video_scenes example_world [''vids''] [''vids-split'']
                   [''ledger.csv''] split_logged_state))
           = trace split_logged_state
             @ trace (final (split_video_scenes example_world [''vids''] [''vids-split'']
                   [''ledger.csv''] split_logged_state))"
    by (simp add: split_logged_state_def)
  from case_sensitive_extensions[of "''x.MP4''" "[''video'']" "[''a.mp4'', ''x.MP4'']"
      example_world "[''vids'']" "[''vids-split'']" "[''ledger.csv'']" split_logged_state
      "''a.mp4''" "''a.MP4''"] a
  have 1: "''x.MP4'' \<notin> set (scan [''video''] [] [''a.mp4'', ''x.MP4''])" by blast
  from case_sensitive_extensions[of "''x.MP4''" "[''video'', ''a.mp4'']" "[''a.mp4'', ''x.MP4'']"
      example_world "[''vids'']" "[''vids-split'']" "[''ledger.csv'']" split_logged_state
      "''a.mp4''" "''a.MP4''"] b t
  have 2: "''a.mp4'' \<notin> set (scan [''video'', ''a.mp4''] [] [''a.mp4'', ''x.MP4''])"
    and 3: "''a.MP4'' \<notin> set (started (trace (final (split_video_scenes example_world [''vids'']
                                   [''vids-split''] [''ledger.csv''] split_logged_state))))"
    by auto
  show ?thesis using a b 1 2 3 by simp
qed

section \<open>Rows come last\<close>



section \<open>What a run logs for one video\<close>

lemma for_each_Ok_each:
  "for_each body xs s = Ok u s' \<Longrightarrow> x \<in> set xs \<Longrightarrow> \<exists>t v t'. body x t = Ok v t'"
proof (induction xs arbitrary: s)
  case Nil
  then show ?case by simp
next
  case (Cons y ys)
  from Cons.prems(1) obtain u1 s1 where
    b: "body y s = Ok u1 s1" and r: "for_each body ys s1 = Ok u s'"
    by (auto split: result.splits)
  show ?case
  proof (cases "x = y")
    case True
    then show ?thesis using b by blast
  next
    case False
    then show ?thesis using Cons.IH[OF r] Cons.prems(2) by simp
  qed
qed

lemma rows_of_quiet: "list_all (\<lambda>e. about e \<noteq> Some f) evs \<Longrightarrow> rows_of f evs = []"
  by (induction evs rule: rows_of.induct) auto

lemma artifacts_of_quiet: "list_all (\<lambda>e. about e \<noteq> Some f) evs \<Longrightarrow> artifacts_of f evs = []"
  by (induction evs rule: artifacts_of.induct) auto




lemma scene_rows_columns:
  "map (\<lambda>row. row ! 1) (scene_rows w out f scenes)
     = map (\<lambda>k. zfill 3 (str_nat k)) [1..<Suc (length scenes)]"
  "map (\<lambda>row. (row ! 4, row ! 5)) (scene_rows w out f scenes)
     = map (\<lambda>(a, b). (timecode_str a, timecode_str b)) scenes"
  "length (scene_rows w out f scenes) = length scenes"
  "k < length scenes \<Longrightarrow>
     scene_rows w out f scenes ! k ! 6 = transcription_of w f (scene_audio_path out f (Suc k))"
proof -
  show "map (\<lambda>row. row ! 1) (scene_rows w out f scenes)
     = map (\<lambda>k. zfill 3 (str_nat k)) [1..<Suc (length scenes)]"
    unfolding scene_rows_def scene_row_def by (simp add: comp_def del: upt_Suc)
  show "map (\<lambda>row. (row ! 4, row ! 5)) (scene_rows w out f scenes)
     = map (\<lambda>(a, b). (timecode_str a, timecode_str b)) scenes"
    unfolding scene_rows_def scene_row_def
    by (rule nth_equalityI) (simp_all add: case_prod_unfold del: upt_Suc)
  show "length (scene_rows w out f scenes) = length scenes"
    unfolding scene_rows_def by (simp del: upt_Suc)
  show "k < length scenes \<Longrightarrow>
     scene_rows w out f scenes ! k ! 6 = transcription_of w f (scene_audio_path out f (Suc k))"
    unfolding scene_rows_def scene_row_def by (simp del: upt_Suc)
qed


lemma dir_events_quiet: "list_all (\<lambda>e. about e \<noteq> Some f) (dir_events vd b)"
  by (simp add: dir_events_def)

lemma scenes_trace_projections:
  "rows_of f (scenes_trace w out f scenes) = scene_rows w out f scenes"
  "artifacts_of f (scenes_trace w out f scenes)
     = scene_image_paths w out f (length scenes) @ scene_clip_paths w out f (length scenes)
       @ map (scene_audio_path out f) [1..<Suc (length scenes)]"
proof -
  have r: "rows_of f (concat (map (scene_events out f) ks)) = []" for ks
    by (induction ks) (auto simp: scene_events_def)
  have a: "artifacts_of f (concat (map (scene_events out f) ks)) = map (scene_audio_path out f) ks"
    for ks
    by (induction ks) (auto simp: scene_events_def)
  show "rows_of f (scenes_trace w out f scenes) = scene_rows w out f scenes"
    unfolding scenes_trace_def
    by (simp add: rows_of_append rows_of_artifacts rows_of_rows r del: upt_Suc)
  show "artifacts_of f (scenes_trace w out f scenes)
     = scene_image_paths w out f (length scenes) @ scene_clip_paths w out f (length scenes)
       @ map (scene_audio_path out f) [1..<Suc (length scenes)]"
    unfolding scenes_trace_def
    by (simp add: artifacts_of_append artifacts_of_artifacts artifacts_of_rows a del: upt_Suc)
qed

text \<open>What a run of main that returns has logged for one of its input files.\<close>

lemma main_video_one:
  assumes ret: "returns (main w out inp files s)"
    and d: "distinct files" and f: "f \<in> set files"
  shows "\<exists>evs scenes. trace (final (main w out inp files s)) = trace s @ evs
           \<and> detect_scenes w (inp @ [f]) = Inr scenes
           \<and> rows_of f evs = scene_rows w out f scenes
           \<and> artifacts_of f evs = scene_image_paths w out f (length scenes)
                 @ scene_clip_paths w out f (length scenes)
                 @ map (scene_audio_path out f) [1..<Suc (length scenes)]
           \<and> (\<forall>k\<in>set [1..<Suc (length scenes)].
                 \<exists>res. transcriber w f (scene_audio_path out f k) = Inr res)"
proof -
  let ?s' = "final (main w out inp files s)"
  let ?R = "\<lambda>g. if g = f then scene_rows w out f (scenes_of w inp f) else []"
  let ?A = "\<lambda>g. if g = f then scene_image_paths w out f (length (scenes_of w inp f))
                 @ scene_clip_paths w out f (length (scenes_of w inp f))
                 @ map (scene_audio_path out f) [1..<Suc (length (scenes_of w inp f))] else []"
  from returnsD[OF ret] obtain u where ok: "main w out inp files s = Ok u ?s'" by blast
  then obtain s1 where
    o: "open_append (out @ [''scenes.csv'']) s = Ok () s1"
    and run: "for_each (main_one w out inp) files s1 = Ok u ?s'"
    by (auto simp: main_def then_do_Ok)
  have t1: "trace s1 = trace s" using open_append_trace[OF o] .
  have one: "\<exists>evs. trace t' = trace t @ evs \<and> rows_of f evs = ?R g \<and> artifacts_of f evs = ?A g"
    if "main_one w out inp g t = Ok v t'" for g t v t'
  proof -
    from main_one_Ok[OF that] obtain scenes where
      sc: "detect_scenes w (inp @ [g]) = Inr scenes"
        "trace t' = trace t @ Started g
            # dir_events (video_dir_of out g) (path_exists (video_dir_of out g) t)
            @ scenes_trace w out g scenes"
      by blast
    let ?evs = "Started g # dir_events (video_dir_of out g) (path_exists (video_dir_of out g) t)
            @ scenes_trace w out g scenes"
    show ?thesis
    proof (cases "g = f")
      case True
      then have "scenes_of w inp f = scenes" using sc(1) by (simp add: scenes_of_def)
      then show ?thesis using sc(2) True
        by (intro exI[of _ ?evs])
           (simp add: rows_of_append artifacts_of_append scenes_trace_projections
             rows_of_quiet[OF dir_events_quiet] artifacts_of_quiet[OF dir_events_quiet])
    next
      case False
      have "list_all (\<lambda>e. about e \<noteq> Some f) ?evs"
        using False about_scenes_trace[of g w out scenes]
          dir_events_quiet[of f "video_dir_of out g" "path_exists (video_dir_of out g) t"]
        by (auto simp: list_all_iff)
      then show ?thesis using sc(2) False
        by (intro exI[of _ ?evs]) (simp add: rows_of_quiet artifacts_of_quiet)
    qed
  qed
  from for_each_project[where proj = "rows_of f" and T = ?R, OF _ rows_of_append run] one
  obtain e1 where e1: "trace ?s' = trace s1 @ e1" "rows_of f e1 = concat (map ?R files)"
    by blast
  from for_each_project[where proj = "artifacts_of f" and T = ?A, OF _ artifacts_of_append run] one
  obtain e2 where e2: "trace ?s' = trace s1 @ e2" "artifacts_of f e2 = concat (map ?A files)"
    by blast
  have same: "e2 = e1" using e1(1) e2(1) by simp
  from for_each_Ok_each[OF run f] obtain t v t' where "main_one w out inp f t = Ok v t'" by blast
  from main_one_Ok[OF this] obtain scenes where
    det: "detect_scenes w (inp @ [f]) = Inr scenes"
    and res: "\<forall>k\<in>set [1..<Suc (length scenes)].
                 \<exists>res. transcriber w f (scene_audio_path out f k) = Inr res"
    by blast
  have so: "scenes_of w inp f = scenes" using det by (simp add: scenes_of_def)
  have "concat (map ?R files) = ?R f" by (rule concat_single[OF d f]) simp
  moreover have "concat (map ?A files) = ?A f" by (rule concat_single[OF d f]) simp
  ultimately show ?thesis
    using e1 e2 same t1 det res so
    by (intro exI[of _ e1] exI[of _ scenes]) simp
qed

section \<open>Scene numbers\<close>



section \<open>The transcription field\<close>

text \<open>
  Claim C4, as amended. In a run of \<^verbatim>\<open>main\<close> that returns, the seventh cell of the row
  of a scene is what \<^verbatim>\<open>res.get("text", "NO TRANSCRIPTION FOUND")\<close> gives for the
  dictionary the recogniser returned for the audio of that scene: the sentinel when the
  dictionary has no text entry, the text itself otherwise, the empty text included. A
  scene whose dictionary the recogniser returns, with or without text, never makes
  the step of that scene raise.
\<close>

theorem transcription_field:
  "(returns (main w output_folder input_folder input_files s)
      \<and> distinct input_files \<and> f \<in> set input_files
      \<and> trace (final (main w output_folder input_folder input_files s)) = trace s @ evs
      \<and> k < length (rows_of f evs)
     \<longrightarrow> (\<exists>res. transcriber w f (scene_audio_path output_folder f (Suc k)) = Inr res
            \<and> rows_of f evs ! k ! 6
                = (case res ''text'' of None \<Rightarrow> ''NO TRANSCRIPTION FOUND'' | Some t \<Rightarrow> t)))
   \<and> (transcriber w (video sc) (audio_path sc) = Inr res' \<longrightarrow> returns (transcribe_scene w sc s'))"
proof (intro conjI impI)
  assume a: "returns (main w output_folder input_folder input_files s)
      \<and> distinct input_files \<and> f \<in> set input_files
      \<and> trace (final (main w output_folder input_folder input_files s)) = trace s @ evs
      \<and> k < length (rows_of f evs)"
  from main_video_one[of w output_folder input_folder input_files s f] a
  obtain evs' scenes where
    m: "trace (final (main w output_folder input_folder input_files s)) = trace s @ evs'"
      "rows_of f evs' = scene_rows w output_folder f scenes"
      "\<forall>k\<in>set [1..<Suc (length scenes)].
          \<exists>res. transcriber w f (scene_audio_path output_folder f k) = Inr res"
    by blast
  have e: "evs' = evs" using m(1) a by simp
  have k: "k < length scenes" using a m(2) e scene_rows_columns(3)[of w output_folder f scenes]
    by simp
  then have "Suc k \<in> set [1..<Suc (length scenes)]" by (simp del: upt_Suc)
  with m(3) obtain res where
    res: "transcriber w f (scene_audio_path output_folder f (Suc k)) = Inr res" by blast
  have "rows_of f evs ! k ! 6
          = transcription_of w f (scene_audio_path output_folder f (Suc k))"
    using m(2) e scene_rows_columns(4)[OF k] by simp
  then show "\<exists>res. transcriber w f (scene_audio_path output_folder f (Suc k)) = Inr res
            \<and> rows_of f evs ! k ! 6
                = (case res ''text'' of None \<Rightarrow> ''NO TRANSCRIPTION FOUND'' | Some t \<Rightarrow> t)"
    using res by (simp add: transcription_of_def)
next
  assume "transcriber w (video sc) (audio_path sc) = Inr res'"
  then show "returns (transcribe_scene w sc s')"
    by (simp add: transcribe_scene_def then_do_def from_world_def emit_def returns_def Let_def)
qed

theorem transcription_field_witness:
  "returns (main example_world [''out''] [''vids''] [''a.mp4''] bare_folder_state)
   \<and> trace (final (main example_world [''out''] [''vids''] [''a.mp4''] bare_folder_state))
       = trace bare_folder_state @ main_example_pre @ map (LedgerRow ''a.mp4'') main_example_rows
   \<and> (1::nat) < length (rows_of ''a.mp4''
                      (main_example_pre @ map (LedgerRow ''a.mp4'') main_example_rows))
   \<and> (\<exists>res. transcriber example_world ''a.mp4'' (scene_audio_path [''out''] ''a.mp4'' (Suc 1))
               = Inr res
          \<and> rows_of ''a.mp4'' (main_example_pre @ map (LedgerRow ''a.mp4'') main_example_rows)
              ! 1 ! 6
              = (case res ''text'' of None \<Rightarrow> ''NO TRANSCRIPTION FOUND'' | Some t \<Rightarrow> t))
   \<and> transcriber example_world ''a.mp4'' [''out'', ''videos'', ''a'', ''audio'', ''002.mp3'']
       = Inr Map.empty
   \<and> returns (transcribe_scene example_world
                \<lparr>video = ''a.mp4'', scene_nr = ''002'',
                  scene_path = [''out'', ''videos'', ''a'', ''scenes'', ''002.mp4''],
                  image_path = [''out'', ''videos'', ''a'', ''images'', ''002.jpg''],
                  audio_path = [''out'', ''videos'', ''a'', ''audio'', ''002.mp3''],
                  start_time = FrameTimecode ''1.0'' ''00:00:01.000'',
                  end_time = FrameTimecode ''2.5'' ''00:00:02.500''\<rparr> empty_state)"
proof -
  let ?evs = "main_example_pre @ map (LedgerRow ''a.mp4'') main_example_rows"
  let ?sc = "\<lparr>video = ''a.mp4'', scene_nr = ''002'',
                  scene_path = [''out'', ''videos'', ''a'', ''scenes'', ''002.mp4''],
                  image_path = [''out'', ''videos'', ''a'', ''images'', ''002.jpg''],
                  audio_path = [''out'', ''videos'', ''a'', ''audio'', ''002.mp3''],
                  start_time = FrameTimecode ''1.0'' ''00:00:01.000'',
                  end_time = FrameTimecode ''2.5'' ''00:00:02.500''\<rparr>"
  have h1: "returns (main example_world [''out''] [''vids''] [''a.mp4''] bare_folder_state)"
    by code_simp
  have h2: "trace (final (main example_world [''out''] [''vids''] [''a.mp4''] bare_folder_state))
       = trace bare_folder_state @ ?evs"
    by code_simp
  have h3: "(1::nat) < length (rows_of ''a.mp4'' ?evs)" by code_simp
  have h4: "distinct [''a.mp4''] \<and> ''a.mp4'' \<in> set [''a.mp4'']" by simp
  have h5: "transcriber example_world (video ?sc) (audio_path ?sc) = Inr Map.empty"
    by (simp add: example_world_def)
  from transcription_field[of example_world "[''out'']" "[''vids'']" "[''a.mp4'']"
      bare_folder_state "''a.mp4''" ?evs 1 ?sc Map.empty empty_state] h1 h2 h3 h4 h5
  show ?thesis by simp
qed

text \<open>
  Claim C4 as stated fails: the recogniser of the example returns the empty text for the
  first scene, and the row of that scene in the ledger holds the empty text, not the
  sentinel.
\<close>

theorem empty_text_counterexample:
  "transcriber example_world ''a.mp4'' [''out'', ''videos'', ''a'', ''audio'', ''001.mp3'']
     = Inr [''text'' \<mapsto> '''']
   \<and> fs (final (transcribe_script example_world [''vids''] [''out''] empty_state))
        [''out'', ''scenes.csv'']
     = Some (CsvFile [transcribe_header,
         [''a.mp4'', ''001'', ''out/videos/a/scenes/001.mp4'', ''out/videos/a/images/001.jpg'',
          ''00:00:00.000'', ''00:00:01.000'', ''''],
         [''a.mp4'', ''002'', ''out/videos/a/scenes/002.mp4'', ''out/videos/a/images/002.jpg'',
          ''00:00:01.000'', ''00:00:02.500'', ''NO TRANSCRIPTION FOUND'']])"
proof -
  have "transcriber example_world ''a.mp4'' [''out'', ''videos'', ''a'', ''audio'', ''001.mp3'']
     = Inr [''text'' \<mapsto> '''']"
    by (simp add: example_world_def)
  moreover have "fs (final (transcribe_script example_world [''vids''] [''out''] empty_state))
        [''out'', ''scenes.csv'']
     = Some (CsvFile [transcribe_header,
         [''a.mp4'', ''001'', ''out/videos/a/scenes/001.mp4'', ''out/videos/a/images/001.jpg'',
          ''00:00:00.000'', ''00:00:01.000'', ''''],
         [''a.mp4'', ''002'', ''out/videos/a/scenes/002.mp4'', ''out/videos/a/images/002.jpg'',
          ''00:00:01.000'', ''00:00:02.500'', ''NO TRANSCRIPTION FOUND'']])"
    by code_simp
  ultimately show ?thesis by blast
qed

section \<open>The ledger follows the log\<close>

lemma all_rows_append: "all_rows (a @ b) = all_rows a @ all_rows b"
  by (induction a rule: all_rows.induct) auto

lemma all_rows_no_row: "list_all (\<lambda>e. \<not> is_row e) evs \<Longrightarrow> all_rows evs = []"
  by (induction evs rule: all_rows.induct) (auto simp: is_row_def)

lemma all_rows_mem: "row \<in> set (all_rows evs) \<Longrightarrow> \<exists>g. LedgerRow g row \<in> set evs"
  by (induction evs rule: all_rows.induct) auto

lemma follows_refl: "reflp (ledger_follows p)"
  unfolding reflp_def ledger_follows_def by (intro allI exI[of _ "[]"]) simp

lemma follows_trans: "transp (ledger_follows p)"
  unfolding transp_def
proof (intro allI impI)
  fix x y z
  assume a: "ledger_follows p x y" and b: "ledger_follows p y z"
  from a obtain e1 where e1: "trace y = trace x @ e1"
    "\<forall>old. fs x p = Some (CsvFile old) \<longrightarrow> fs y p = Some (CsvFile (old @ all_rows e1))"
    unfolding ledger_follows_def by blast
  from b obtain e2 where e2: "trace z = trace y @ e2"
    "\<forall>old. fs y p = Some (CsvFile old) \<longrightarrow> fs z p = Some (CsvFile (old @ all_rows e2))"
    unfolding ledger_follows_def by blast
  show "ledger_follows p x z"
    unfolding ledger_follows_def
    using e1 e2 by (intro exI[of _ "e1 @ e2"]) (simp add: all_rows_append)
qed

text \<open>A step that writes no row and leaves the ledger as it is.\<close>

lemma follows_unchanged:
  assumes "trace s' = trace s @ evs" "list_all (\<lambda>e. \<not> is_row e) evs"
    "fs s p \<noteq> None \<Longrightarrow> fs s' p = fs s p"
  shows "ledger_follows p s s'"
  unfolding ledger_follows_def
  using assms all_rows_no_row[OF assms(2)] by (intro exI[of _ evs]) auto

lemma follows_emit: "\<not> is_row ev \<Longrightarrow> steps (ledger_follows p) (emit ev)"
  unfolding steps_def
  by (intro allI follows_unchanged[where evs = "[ev]"]) (simp_all add: emit_def)

lemma follows_makedirs: "steps (ledger_follows p) (makedirs d b)"
  unfolding steps_def
proof
  fix s
  show "ledger_follows p s (final (makedirs d b s))"
  proof (cases "makedirs d b s")
    case (Ok u s')
    from makedirs_Ok(4)[OF Ok] consider "trace s' = trace s @ []" | "trace s' = trace s @ [Makedirs d]"
      by auto
    then show ?thesis using makedirs_Ok(2)[OF Ok] Ok
      by cases (auto intro!: follows_unchanged simp: is_row_def)
  next
    case (Raise e s')
    then show ?thesis using makedirs_Raise[OF Raise] follows_refl by (simp add: reflp_def)
  qed
qed

lemma follows_rmtree: "\<not> prefix d p \<Longrightarrow> steps (ledger_follows p) (rmtree d)"
  unfolding steps_def
proof
  fix s
  assume np: "\<not> prefix d p"
  show "ledger_follows p s (final (rmtree d s))"
  proof (cases "fs s d")
    case None
    then show ?thesis using follows_refl by (simp add: rmtree_def reflp_def)
  next
    case (Some n)
    then show ?thesis using follows_refl np
      by (cases n)
         (auto simp: rmtree_def reflp_def is_row_def intro!: follows_unchanged[where evs = "[Rmtree d]"])
  qed
qed

lemma follows_write_artifact: "a \<noteq> p \<Longrightarrow> steps (ledger_follows p) (write_artifact f a)"
  unfolding steps_def
proof
  fix s
  assume np: "a \<noteq> p"
  show "ledger_follows p s (final (write_artifact f a s))"
  proof (cases "write_artifact f a s")
    case (Ok u s')
    then have "s' = s\<lparr>fs := (fs s)(a \<mapsto> MediaFile), trace := trace s @ [Artifact f a]\<rparr>"
      by (auto simp: write_artifact_def split: option.splits node.splits)
    then show ?thesis using Ok np
      by (auto simp: is_row_def intro!: follows_unchanged[where evs = "[Artifact f a]"])
  next
    case (Raise e s')
    then have "s' = s" by (auto simp: write_artifact_def split: option.splits node.splits)
    then show ?thesis using Raise follows_refl by (simp add: reflp_def)
  qed
qed

lemma follows_open_append: "steps (ledger_follows p) (open_append q)"
  unfolding steps_def
proof
  fix s
  show "ledger_follows p s (final (open_append q s))"
  proof (cases "open_append q s")
    case (Ok u s')
    then have "trace s' = trace s @ []" "fs s p \<noteq> None \<Longrightarrow> fs s' p = fs s p"
      by (auto simp: open_append_def split: option.splits node.splits)
    then show ?thesis using Ok by (auto intro!: follows_unchanged)
  next
    case (Raise e s')
    then have "s' = s" by (auto simp: open_append_def split: option.splits node.splits)
    then show ?thesis using Raise follows_refl by (simp add: reflp_def)
  qed
qed

lemma follows_writerow: "steps (ledger_follows p) (writerow (LedgerRow f) p row)"
  unfolding steps_def ledger_follows_def
  by (intro allI exI[of _ "[LedgerRow f row]"]) (simp add: writerow_def)

lemma follows_video_to_audio: "a \<noteq> p \<Longrightarrow> steps (ledger_follows p) (video_to_audio w f i a)"
  unfolding steps_def
proof
  fix s
  assume np: "a \<noteq> p"
  have r: "ledger_follows p s s" using follows_refl by (simp add: reflp_def)
  have "ledger_follows p s (final (write_artifact f a s))"
    by (rule stepsD[OF follows_write_artifact[OF np]])
  then show "ledger_follows p s (final (video_to_audio w f i a s))"
    using r
    by (auto simp: video_to_audio_def split: option.splits node.splits)
qed

lemma follows_save_images:
  "\<not> prefix d p \<Longrightarrow> steps (ledger_follows p) (save_images w f scenes t d)"
  unfolding save_images_def case_prod_unfold
  by (intro steps_for_each follows_refl follows_trans follows_write_artifact) auto

lemma follows_split_video_ffmpeg:
  "\<not> prefix d p \<Longrightarrow> steps (ledger_follows p) (split_video_ffmpeg w f scenes t d)"
  unfolding split_video_ffmpeg_def case_prod_unfold
  by (intro steps_for_each follows_refl follows_trans follows_write_artifact) auto

lemma follows_split_one:
  assumes "\<not> prefix (out @ [''images'']) csv" "\<not> prefix (out @ [''videos'']) csv"
  shows "steps (ledger_follows csv)
           (split_one w inp (out @ [''images'']) (out @ [''videos'']) csv processed g)"
proof (cases "\<not> endswith g video_exts \<or> fst (splitext g) \<in> processed")
  case True
  then show ?thesis
    using steps_Ok[OF follows_refl, of csv "()"] by (simp add: split_one_def Let_def)
next
  case False
  then show ?thesis
    unfolding split_one_def Let_def case_prod_unfold
    using assms
    by (simp only: if_False)
       (intro steps_then_do steps_for_each follows_refl follows_trans follows_emit
         steps_from_world follows_save_images follows_split_video_ffmpeg follows_open_append
         follows_writerow, simp_all add: is_row_def)
qed

lemma follows_fresh_dirs: "\<not> prefix vd p \<Longrightarrow> steps (ledger_follows p) (fresh_dirs vd)"
  unfolding fresh_dirs_def Let_def
  by (intro steps_then_do steps_if steps_for_each steps_Ok follows_refl follows_trans
      follows_rmtree follows_makedirs)

lemma follows_scene_generator_start:
  "steps (ledger_follows (out @ [''scenes.csv''])) (scene_generator_start w inp g out)"
  unfolding scene_generator_start_def Let_def
  by (intro steps_then_do steps_Ok steps_from_world follows_refl follows_trans
      follows_fresh_dirs follows_save_images follows_split_video_ffmpeg)
     (simp_all add: video_dir_of_def)

lemma follows_scene_step:
  "steps (ledger_follows (out @ [''scenes.csv'']))
     (then_do (scene_generator_next w g out x) (transcribe_scene w))"
  unfolding scene_generator_next_def transcribe_scene_def Let_def case_prod_unfold
  by (intro steps_then_do steps_Ok steps_from_world follows_refl follows_trans
      follows_video_to_audio follows_emit)
     (simp_all add: video_dir_of_def is_row_def)

lemma follows_main_one:
  "steps (ledger_follows (out @ [''scenes.csv''])) (main_one w out inp g)"
  unfolding main_one_def Let_def
  by (intro steps_then_do steps_for_each steps_accumulate follows_refl follows_trans
      follows_emit follows_scene_generator_start follows_scene_step follows_writerow)
     (simp_all add: is_row_def)

lemma follows_main:
  "steps (ledger_follows (out @ [''scenes.csv''])) (main w out inp files)"
  unfolding main_def
  by (intro steps_then_do steps_for_each follows_refl follows_trans follows_open_append
      follows_main_one)

lemma named_no_row: "list_all (\<lambda>e. \<not> is_row e) evs \<Longrightarrow> list_all (named nm) evs"
  by (induction evs) (auto simp: named_def is_row_def split: event.splits)

lemma named_split_one:
  "steps (logs (named (\<lambda>g. fst (splitext g))))
     (split_one w inp (out @ [''images'']) (out @ [''videos'']) csv processed g)"
  unfolding steps_def logs_def
proof
  fix s
  let ?r = "split_one w inp (out @ [''images'']) (out @ [''videos'']) csv processed g s"
  let ?N = "named (\<lambda>g. fst (splitext g))"
  show "\<exists>evs. trace (final ?r) = trace s @ evs \<and> list_all ?N evs"
  proof (cases "\<not> endswith g video_exts \<or> fst (splitext g) \<in> processed")
    case True
    then show ?thesis using split_one_skip[OF True] by simp
  next
    case False
    show ?thesis
    proof (cases ?r)
      case (Ok u s')
      from split_one_Ok[OF Ok] False obtain scenes where
        t: "trace s' = trace s @ split_trace w out g scenes" by auto
      have "list_all ?N (split_trace w out g scenes)"
        unfolding split_trace_def split_rows_def
        by (auto simp: list_all_iff named_def)
      then show ?thesis using Ok t by auto
    next
      case (Raise e s')
      from split_one_Raise[OF Raise] obtain evs where
        evs: "trace s' = trace s @ Started g # evs" "list_all (artifact_of g) evs" by blast
      have "list_all (\<lambda>e. \<not> is_row e) (Started g # evs)"
        using artifact_of_no_row[OF evs(2)] by (simp add: is_row_def)
      then have "list_all ?N (Started g # evs)" by (rule named_no_row)
      then show ?thesis using Raise evs(1)
        by (intro exI[of _ "Started g # evs"]) simp
    qed
  qed
qed

lemma named_main_one: "steps (logs (named (\<lambda>g. g))) (main_one w out inp g)"
  unfolding steps_def logs_def
proof
  fix s
  let ?N = "named (\<lambda>g. g)"
  show "\<exists>evs. trace (final (main_one w out inp g s)) = trace s @ evs \<and> list_all ?N evs"
  proof (cases "main_one w out inp g s")
    case (Ok u s')
    from main_one_Ok[OF Ok] obtain scenes where
      t: "trace s' = trace s @ Started g
            # dir_events (video_dir_of out g) (path_exists (video_dir_of out g) s)
            @ scenes_trace w out g scenes"
      by blast
    let ?head = "Started g # dir_events (video_dir_of out g) (path_exists (video_dir_of out g) s)
        @ map (Artifact g) (scene_image_paths w out g (length scenes))
        @ map (Artifact g) (scene_clip_paths w out g (length scenes))
        @ concat (map (scene_events out g) [1..<Suc (length scenes)])"
    have "list_all (\<lambda>e. \<not> is_row e) ?head"
      by (rule main_head(3)[OF refl no_row_dir_events])
    then have h: "list_all ?N ?head" by (rule named_no_row)
    have r: "list_all ?N (map (LedgerRow g) (scene_rows w out g scenes))"
      unfolding scene_rows_def scene_row_def by (auto simp: list_all_iff named_def)
    have "list_all ?N (?head @ map (LedgerRow g) (scene_rows w out g scenes))"
      using h r by (simp only: list_all_append)
    then show ?thesis using Ok t unfolding scenes_trace_def
      by (intro exI[of _ "?head @ map (LedgerRow g) (scene_rows w out g scenes)"])
         (simp del: upt_Suc)
  next
    case (Raise e s')
    from main_one_Raise[OF Raise] obtain evs where
      evs: "trace s' = trace s @ Started g # evs" "list_all (work_of g) evs" by blast
    have "list_all (\<lambda>e. \<not> is_row e) (Started g # evs)"
      using evs(2) work_ofD by (auto simp: list_all_iff is_row_def)
    then have "list_all ?N (Started g # evs)" by (rule named_no_row)
    then show ?thesis using Raise evs(1)
      by (intro exI[of _ "Started g # evs"]) simp
  qed
qed

lemma named_main: "steps (logs (named (\<lambda>g. g))) (main w out inp files)"
  unfolding main_def
  by (intro steps_then_do steps_for_each logs_refl logs_trans logs_open_append named_main_one)

lemma split_event_quiet: "list_all (\<lambda>e. about e = None) evs \<Longrightarrow> list_all (split_event P) evs"
  by (auto simp: list_all_iff split_event_def)

lemma split_rerun:
  assumes led: "fs s csv = Some (CsvFile (header # rest))"
    and np: "\<not> prefix (out @ [''images'']) csv" "\<not> prefix (out @ [''videos'']) csv"
  shows "\<exists>evs. trace (final (split_video_scenes w inp out csv s)) = trace s @ evs
           \<and> list_all (split_event (set (map hd rest))) evs
           \<and> list_all (named (\<lambda>g. fst (splitext g))) evs
           \<and> fs (final (split_video_scenes w inp out csv s)) csv
               = Some (CsvFile (header # rest @ all_rows evs))"
proof -
  let ?P = "set (map hd rest)"
  let ?N = "named (\<lambda>g. fst (splitext g))"
  have ln: "logged_names (fs s csv) = ?P" using led by (simp add: logged_names_def)
  from split_video_scenes_cases[of w inp out csv s]
  consider (fails) e s1 where "split_video_scenes w inp out csv s = Raise e s1" "quiet s s1"
    | (loops) s1 vids where "quiet s s1"
        "split_video_scenes w inp out csv s
           = for_each (split_one w inp (out @ [''images'']) (out @ [''videos'']) csv ?P) vids s1"
    unfolding ln by blast
  then show ?thesis
  proof cases
    case fails
    from quiet_events[OF fails(2)] obtain e0 where
      e0: "trace s1 = trace s @ e0" "list_all (\<lambda>e. about e = None) e0" by blast
    have k: "fs s1 csv = fs s csv" using fails(2) led by (simp add: quiet_def)
    have nr: "list_all (\<lambda>e. \<not> is_row e) e0" using about_None_no_row[OF e0(2)] .
    show ?thesis
      using fails(1) e0(1) k led split_event_quiet[OF e0(2)] named_no_row[OF nr] all_rows_no_row[OF nr]
      by (intro exI[of _ e0]) simp
  next
    case loops
    let ?loop = "for_each (split_one w inp (out @ [''images'']) (out @ [''videos'']) csv ?P) vids"
    from quiet_events[OF loops(1)] obtain e0 where
      e0: "trace s1 = trace s @ e0" "list_all (\<lambda>e. about e = None) e0" by blast
    have k: "fs s1 csv = Some (CsvFile (header # rest))"
      using loops(1) led by (simp add: quiet_def)
    have nr: "list_all (\<lambda>e. \<not> is_row e) e0" using about_None_no_row[OF e0(2)] .
    have "steps (ledger_follows csv) ?loop"
      by (intro steps_for_each follows_refl follows_trans follows_split_one np)
    from stepsD[OF this, of s1] k obtain e1 where
      e1: "trace (final (?loop s1)) = trace s1 @ e1"
        "fs (final (?loop s1)) csv = Some (CsvFile ((header # rest) @ all_rows e1))"
      unfolding ledger_follows_def by blast
    have "steps (logs (split_event ?P)) ?loop"
      by (rule steps_for_each[OF logs_refl logs_trans]) (rule steps_split_one_event)
    from logsD[OF this, of s1] e1(1) have p1: "list_all (split_event ?P) e1" by auto
    have "steps (logs ?N) ?loop"
      by (rule steps_for_each[OF logs_refl logs_trans]) (rule named_split_one)
    from logsD[OF this, of s1] e1(1) have n1: "list_all ?N e1" by auto
    show ?thesis
      using loops(2) e0(1) e1 p1 n1 split_event_quiet[OF e0(2), of ?P] named_no_row[OF nr, of "\<lambda>g. fst (splitext g)"]
        all_rows_no_row[OF nr]
      by (intro exI[of _ "e0 @ e1"]) (simp add: all_rows_append)
  qed
qed

lemma transcribe_rerun:
  assumes ex: "fs s out \<noteq> None"
    and led: "fs s (out @ [''scenes.csv'']) = Some (CsvFile rows0)"
  shows "\<exists>evs. trace (final (transcribe_script w folder out s)) = trace s @ evs
           \<and> list_all (\<lambda>e. case about e of None \<Rightarrow> True | Some g \<Rightarrow> g \<notin> set (map hd rows0)) evs
           \<and> list_all (named (\<lambda>g. g)) evs
           \<and> fs (final (transcribe_script w folder out s)) (out @ [''scenes.csv''])
               = Some (CsvFile (rows0 @ all_rows evs))"
proof -
  let ?r = "transcribe_script w folder out s"
  let ?Q = "\<lambda>e. case about e of None \<Rightarrow> True | Some g \<Rightarrow> g \<notin> set (map hd rows0)"
  have stop: ?thesis if "final ?r = s"
    using that led by (intro exI[of _ "[]"]) simp
  show ?thesis
  proof (cases "[] \<in> set rows0")
    case True
    then have "?r = Raise IndexError s"
      using ex led
      by (simp add: transcribe_script_def init_folder_def path_exists_def then_do_def
          read_rows_def first_cells_def)
    then show ?thesis using stop by simp
  next
    case False
    then have i: "init_folder out s = Ok (map hd rows0) s"
      using ex led
      by (simp add: init_folder_def path_exists_def then_do_def read_rows_def first_cells_def)
    show ?thesis
    proof (cases "listdir w folder")
      case (Inl e)
      then have "?r = Raise e s"
        using i by (simp add: transcribe_script_def then_do_def from_world_def)
      then show ?thesis using stop by simp
    next
      case (Inr files)
      let ?todo = "scan (map hd rows0) [] files"
      have run: "?r = main w out folder ?todo s"
        using i Inr by (simp add: transcribe_script_def then_do_def from_world_def)
      have "ledger_follows (out @ [''scenes.csv'']) s (final (main w out folder ?todo s))"
        by (rule stepsD[OF follows_main])
      with led obtain evs where
        evs: "trace (final ?r) = trace s @ evs"
          "fs (final ?r) (out @ [''scenes.csv'']) = Some (CsvFile (rows0 @ all_rows evs))"
        unfolding ledger_follows_def run by blast
      from main_events[of w out folder ?todo s] evs(1) run
      have m: "list_all (main_event ?todo) evs" by auto
      have q: "list_all ?Q evs"
        using m by (auto simp: list_all_iff main_event_def scan_filter split: option.splits)
      have "\<exists>evs. trace (final (main w out folder ?todo s)) = trace s @ evs
               \<and> list_all (named (\<lambda>g. g)) evs"
        by (rule logsD[OF named_main])
      with evs(1) run have n: "list_all (named (\<lambda>g. g)) evs" by auto
      show ?thesis using evs q n by blast
    qed
  qed
qed

section \<open>A second run\<close>

text \<open>
  Claim C3. When the ledger already holds a video (its bare name in split\_video.py,
  its full name in transcribe.py), a run, however it ends, logs no event for that
  video: it is not started, no artifact and no row is written for it. The ledger keeps
  all the rows it had, in place, and gains at its end exactly the rows the run writes,
  none of which carries the name of a video that was already logged. For
  split\_video.py the ledger is taken to lie outside the images and videos directories.
\<close>

theorem rerun_is_noop:
  "(fs s csv_file = Some (CsvFile (header # rest)) \<and> fst (splitext f) \<in> set (map hd rest)
      \<and> \<not> prefix (output_folder @ [''images'']) csv_file
      \<and> \<not> prefix (output_folder @ [''videos'']) csv_file
     \<longrightarrow> (\<exists>evs. trace (final (split_video_scenes w input_folder output_folder csv_file s))
                   = trace s @ evs
            \<and> list_all (\<lambda>e. about e \<noteq> Some f) evs
            \<and> fs (final (split_video_scenes w input_folder output_folder csv_file s)) csv_file
                = Some (CsvFile (header # rest @ all_rows evs))
            \<and> list_all (\<lambda>row. row \<noteq> [] \<and> hd row \<notin> set (map hd rest)) (all_rows evs)))
   \<and> (fs s' output_folder' \<noteq> None
      \<and> fs s' (output_folder' @ [''scenes.csv'']) = Some (CsvFile rows0)
      \<and> f' \<in> set (map hd rows0)
     \<longrightarrow> (\<exists>evs. trace (final (transcribe_script w folder output_folder' s')) = trace s' @ evs
            \<and> list_all (\<lambda>e. about e \<noteq> Some f') evs
            \<and> fs (final (transcribe_script w folder output_folder' s'))
                 (output_folder' @ [''scenes.csv''])
                = Some (CsvFile (rows0 @ all_rows evs))
            \<and> list_all (\<lambda>row. row \<noteq> [] \<and> hd row \<notin> set (map hd rows0)) (all_rows evs)))"
proof (intro conjI impI)
  assume a: "fs s csv_file = Some (CsvFile (header # rest)) \<and> fst (splitext f) \<in> set (map hd rest)
      \<and> \<not> prefix (output_folder @ [''images'']) csv_file
      \<and> \<not> prefix (output_folder @ [''videos'']) csv_file"
  let ?r = "split_video_scenes w input_folder output_folder csv_file s"
  from split_rerun[of s csv_file header rest output_folder w input_folder] a
  obtain evs where
    evs: "trace (final ?r) = trace s @ evs"
      "list_all (split_event (set (map hd rest))) evs"
      "list_all (named (\<lambda>g. fst (splitext g))) evs"
      "fs (final ?r) csv_file = Some (CsvFile (header # rest @ all_rows evs))"
    by blast
  have 1: "list_all (\<lambda>e. about e \<noteq> Some f) evs"
    using evs(2) a by (auto simp: list_all_iff split_event_def split: option.splits)
  have 2: "list_all (\<lambda>row. row \<noteq> [] \<and> hd row \<notin> set (map hd rest)) (all_rows evs)"
    unfolding list_all_iff
  proof
    fix row assume "row \<in> set (all_rows evs)"
    then obtain g where g: "LedgerRow g row \<in> set evs" using all_rows_mem by blast
    then have "named (\<lambda>g. fst (splitext g)) (LedgerRow g row)"
      and "split_event (set (map hd rest)) (LedgerRow g row)"
      using evs(2,3) by (auto simp: list_all_iff)
    then show "row \<noteq> [] \<and> hd row \<notin> set (map hd rest)"
      by (simp add: named_def split_event_def)
  qed
  show "\<exists>evs. trace (final ?r) = trace s @ evs
            \<and> list_all (\<lambda>e. about e \<noteq> Some f) evs
            \<and> fs (final ?r) csv_file = Some (CsvFile (header # rest @ all_rows evs))
            \<and> list_all (\<lambda>row. row \<noteq> [] \<and> hd row \<notin> set (map hd rest)) (all_rows evs)"
    using evs(1,4) 1 2 by blast
next
  assume a: "fs s' output_folder' \<noteq> None
      \<and> fs s' (output_folder' @ [''scenes.csv'']) = Some (CsvFile rows0)
      \<and> f' \<in> set (map hd rows0)"
  let ?r = "transcribe_script w folder output_folder' s'"
  let ?p = "output_folder' @ [''scenes.csv'']"
  from transcribe_rerun[of s' output_folder' rows0 w folder] a
  obtain evs where
    evs: "trace (final ?r) = trace s' @ evs"
      "list_all (\<lambda>e. case about e of None \<Rightarrow> True | Some g \<Rightarrow> g \<notin> set (map hd rows0)) evs"
      "list_all (named (\<lambda>g. g)) evs"
      "fs (final ?r) ?p = Some (CsvFile (rows0 @ all_rows evs))"
    by blast
  have 1: "list_all (\<lambda>e. about e \<noteq> Some f') evs"
    using evs(2) a by (auto simp: list_all_iff split: option.splits)
  have 2: "list_all (\<lambda>row. row \<noteq> [] \<and> hd row \<notin> set (map hd rows0)) (all_rows evs)"
    unfolding list_all_iff
  proof
    fix row assume "row \<in> set (all_rows evs)"
    then obtain g where g: "LedgerRow g row \<in> set evs" using all_rows_mem by blast
    then have "named (\<lambda>g. g) (LedgerRow g row)"
      and "case about (LedgerRow g row) of None \<Rightarrow> True | Some g \<Rightarrow> g \<notin> set (map hd rows0)"
      using evs(2,3) by (auto simp: list_all_iff)
    then show "row \<noteq> [] \<and> hd row \<notin> set (map hd rows0)"
      by (simp add: named_def)
  qed
  show "\<exists>evs. trace (final ?r) = trace s' @ evs
            \<and> list_all (\<lambda>e. about e \<noteq> Some f') evs
            \<and> fs (final ?r) ?p = Some (CsvFile (rows0 @ all_rows evs))
            \<and> list_all (\<lambda>row. row \<noteq> [] \<and> hd row \<notin> set (map hd rows0)) (all_rows evs)"
    using evs(1,4) 1 2 by blast
qed

theorem rerun_is_noop_witness:
  "fs split_logged_state [''ledger.csv'']
     = Some (CsvFile (split_header # [[''a'', ''1'', ''0.0'', ''1.0'']]))
   \<and> fst (splitext ''a.mp4'') \<in> set (map hd [[''a'', ''1'', ''0.0'', ''1.0'']])
   \<and> \<not> prefix ([''vids-split''] @ [''images'']) [''ledger.csv'']
   \<and> \<not> prefix ([''vids-split''] @ [''videos'']) [''ledger.csv'']
   \<and> (\<exists>evs. trace (final (split_video_scenes example_world [''vids''] [''vids-split'']
                             [''ledger.csv''] split_logged_state))
               = trace split_logged_state @ evs
          \<and> list_all (\<lambda>e. about e \<noteq> Some ''a.mp4'') evs
          \<and> fs (final (split_video_scenes example_world [''vids''] [''vids-split'']
                          [''ledger.csv''] split_logged_state)) [''ledger.csv'']
              = Some (CsvFile (split_header # [[''a'', ''1'', ''0.0'', ''1.0'']] @ all_rows evs)))
   \<and> fs logged_state [''out''] = Some Dir
   \<and> fs logged_state [''out'', ''scenes.csv'']
       = Some (CsvFile [transcribe_header, logged_row])
   \<and> ''a.mp4'' \<in> set (map hd [transcribe_header, logged_row])
   \<and> (\<exists>evs. trace (final (transcribe_script example_world [''vids''] [''out''] logged_state))
               = trace logged_state @ evs
          \<and> list_all (\<lambda>e. about e \<noteq> Some ''a.mp4'') evs
          \<and> fs (final (transcribe_script example_world [''vids''] [''out''] logged_state))
                [''out'', ''scenes.csv'']
              = Some (CsvFile ([transcribe_header, logged_row] @ all_rows evs)))"
proof -
  have h1: "fs split_logged_state [''ledger.csv'']
     = Some (CsvFile (split_header # [[''a'', ''1'', ''0.0'', ''1.0'']]))"
    by (simp add: split_logged_state_def)
  have h2: "fst (splitext ''a.mp4'') \<in> set (map hd [[''a'', ''1'', ''0.0'', ''1.0'']])"
    by code_simp
  have h3: "\<not> prefix ([''vids-split''] @ [''images'']) [''ledger.csv'']"
    "\<not> prefix ([''vids-split''] @ [''videos'']) [''ledger.csv'']"
    by simp_all
  have h4: "fs logged_state [''out''] = Some Dir"
    "fs logged_state ([''out''] @ [''scenes.csv'']) = Some (CsvFile [transcribe_header, logged_row])"
    by (simp_all add: logged_state_def logged_row_def)
  have h5: "''a.mp4'' \<in> set (map hd [transcribe_header, logged_row])"
    by (simp add: logged_row_def)
  from rerun_is_noop[of split_logged_state "[''ledger.csv'']" split_header
      "[[''a'', ''1'', ''0.0'', ''1.0'']]" "''a.mp4''" "[''vids-split'']" example_world "[''vids'']"
      logged_state "[''out'']" "[transcribe_header, logged_row]" "''a.mp4''" "[''vids'']"]
    h1 h2 h3 h4 h5
  show ?thesis by simp blast
qed

section \<open>The directories of a video\<close>

lemma makedirs_leaf:
  assumes "name \<noteq> []" "fs s name = None"
    "\<forall>q. strict_prefix q name \<longrightarrow> q = [] \<or> fs s q = Some Dir"
  shows "makedirs name False s
           = Ok () (s\<lparr>fs := (fs s)(name \<mapsto> Dir), trace := trace s @ [Makedirs name]\<rparr>)"
proof -
  have "\<not> list_ex (\<lambda>q. q \<noteq> [] \<and> fs s q \<noteq> None \<and> fs s q \<noteq> Some Dir) (prefixes name)"
    using assms(2,3) by (auto simp: list_ex_iff strict_prefix_def)
  moreover have "(\<lambda>q. if q \<noteq> [] \<and> prefix q name \<and> fs s q = None then Some Dir else fs s q)
                  = (fs s)(name \<mapsto> Dir)"
    using assms by (auto simp: fun_eq_iff strict_prefix_def)
  ultimately show ?thesis using assms(1,2) by (simp add: makedirs_def)
qed

lemma strict_prefix_snoc: "strict_prefix q (p @ [x]) \<longleftrightarrow> prefix q p"
  by (auto simp: strict_prefix_def prefix_snoc dest: prefix_length_le)

lemma makedirs_child:
  assumes "dir_chain (fs s) p" "fs s (p @ [x]) = None"
  shows "makedirs (p @ [x]) False s
           = Ok () (s\<lparr>fs := (fs s)(p @ [x] \<mapsto> Dir), trace := trace s @ [Makedirs (p @ [x])]\<rparr>)"
  using assms
  by (intro makedirs_leaf) (auto simp: strict_prefix_snoc dir_chain_def list_all_iff)

lemma dir_chain_child:
  "dir_chain f p \<Longrightarrow> g = f(p @ [x] \<mapsto> Dir) \<Longrightarrow> dir_chain g p"
  unfolding dir_chain_def list_all_iff
  by (auto dest: prefix_length_le)

lemma fresh_dirs_existing:
  assumes "dir_chain (fs s) vd"
  shows "\<exists>t. fresh_dirs vd s = Ok () t
           \<and> trace t = trace s @ dir_events vd True
           \<and> fs t = (\<lambda>q. if prefix vd q then None else fs s q)
                      (vd \<mapsto> Dir, vd @ [''scenes''] \<mapsto> Dir, vd @ [''images''] \<mapsto> Dir,
                       vd @ [''audio''] \<mapsto> Dir)"
proof -
  have ne: "vd \<noteq> []" and anc: "\<forall>q. prefix q vd \<longrightarrow> q = [] \<or> fs s q = Some Dir"
    using assms by (auto simp: dir_chain_def list_all_iff)
  then have ex: "fs s vd = Some Dir" by auto
  define s0 where "s0 = s\<lparr>fs := (\<lambda>q. if prefix vd q then None else fs s q),
                          trace := trace s @ [Rmtree vd]\<rparr>"
  have r: "rmtree vd s = Ok () s0" using ex by (simp add: rmtree_def s0_def)
  have anc0: "\<forall>q. strict_prefix q vd \<longrightarrow> q = [] \<or> fs s0 q = Some Dir"
    using anc by (auto simp: s0_def strict_prefix_def)
  define s1 where "s1 = s0\<lparr>fs := (fs s0)(vd \<mapsto> Dir), trace := trace s0 @ [Makedirs vd]\<rparr>"
  have m1: "makedirs vd False s0 = Ok () s1"
    unfolding s1_def by (rule makedirs_leaf[OF ne _ anc0]) (simp add: s0_def)
  have c1: "dir_chain (fs s1) vd"
    using anc0 ne by (auto simp: dir_chain_def list_all_iff s1_def strict_prefix_def)
  define s2 where "s2 = s1\<lparr>fs := (fs s1)(vd @ [''scenes''] \<mapsto> Dir),
                           trace := trace s1 @ [Makedirs (vd @ [''scenes''])]\<rparr>"
  have m2: "makedirs (vd @ [''scenes'']) False s1 = Ok () s2"
    unfolding s2_def by (rule makedirs_child[OF c1]) (simp add: s1_def s0_def)
  have c2: "dir_chain (fs s2) vd" by (rule dir_chain_child[OF c1]) (simp add: s2_def)
  define s3 where "s3 = s2\<lparr>fs := (fs s2)(vd @ [''images''] \<mapsto> Dir),
                           trace := trace s2 @ [Makedirs (vd @ [''images''])]\<rparr>"
  have m3: "makedirs (vd @ [''images'']) False s2 = Ok () s3"
    unfolding s3_def by (rule makedirs_child[OF c2]) (simp add: s2_def s1_def s0_def)
  have c3: "dir_chain (fs s3) vd" by (rule dir_chain_child[OF c2]) (simp add: s3_def)
  define s4 where "s4 = s3\<lparr>fs := (fs s3)(vd @ [''audio''] \<mapsto> Dir),
                           trace := trace s3 @ [Makedirs (vd @ [''audio''])]\<rparr>"
  have m4: "makedirs (vd @ [''audio'']) False s3 = Ok () s4"
    unfolding s4_def by (rule makedirs_child[OF c3]) (simp add: s3_def s2_def s1_def s0_def)
  have run: "fresh_dirs vd s = Ok () s4"
    using ex r m1 m2 m3 m4
    by (simp add: fresh_dirs_def Let_def then_do_def path_exists_def)
  show ?thesis
    using run
    by (intro exI[of _ s4])
       (simp add: s4_def s3_def s2_def s1_def s0_def dir_events_def)
qed

lemma makedirs_absent:
  assumes "creatable (fs s) p" "fs s p = None"
  shows "\<exists>t. makedirs p False s = Ok () t \<and> trace t = trace s @ [Makedirs p]
           \<and> fs t p = Some Dir
           \<and> (\<forall>q. fs s q \<noteq> None \<longrightarrow> fs t q = fs s q)
           \<and> (\<forall>q. fs t q \<noteq> fs s q \<longrightarrow> fs t q = Some Dir \<and> prefix q p)"
proof -
  have "\<not> list_ex (\<lambda>q. q \<noteq> [] \<and> fs s q \<noteq> None \<and> fs s q \<noteq> Some Dir) (prefixes p)"
    using assms(1) by (auto simp: creatable_def list_all_iff list_ex_iff)
  then obtain t where t: "makedirs p False s = Ok () t"
    using assms by (auto simp: makedirs_def creatable_def)
  show ?thesis
    using t makedirs_Ok[OF t] makedirs_new_Ok[OF t] by blast
qed

lemma creatable_child:
  assumes "creatable f p" "g (p @ [x]) = None" "\<forall>q. g q \<noteq> f q \<longrightarrow> g q = Some Dir"
  shows "creatable g (p @ [x])"
proof -
  have "creatable g p" using creatable_kept[OF assms(1,3)] .
  then show ?thesis using assms(2) by (simp add: creatable_def)
qed

lemma changed_Dir_trans:
  assumes "\<forall>q. g q \<noteq> f q \<longrightarrow> g q = Some Dir" "\<forall>q. h q \<noteq> g q \<longrightarrow> h q = Some Dir \<and> P q"
  shows "\<forall>q. h q \<noteq> f q \<longrightarrow> h q = Some Dir"
proof (intro allI impI)
  fix q assume a: "h q \<noteq> f q"
  show "h q = Some Dir"
  proof (cases "h q = g q")
    case True
    then show ?thesis using assms(1) a by simp
  next
    case False
    then show ?thesis using assms(2) by simp
  qed
qed

lemma sibling_kept:
  assumes "\<forall>q. g q \<noteq> f q \<longrightarrow> g q = Some Dir \<and> prefix q (vd @ [y])" "x \<noteq> y"
  shows "g (vd @ [x]) = f (vd @ [x])"
proof -
  have "\<not> prefix (vd @ [x]) (vd @ [y])"
    using assms(2) by (auto simp: prefix_snoc dest: prefix_length_le)
  then show ?thesis using assms(1) by blast
qed

lemma child_kept:
  assumes "\<forall>q. g q \<noteq> f q \<longrightarrow> g q = Some Dir \<and> prefix q vd"
  shows "g (vd @ [x]) = f (vd @ [x])"
proof -
  have "\<not> prefix (vd @ [x]) vd" by (auto dest: prefix_length_le)
  then show ?thesis using assms by blast
qed

lemma fresh_dirs_absent:
  assumes c: "creatable (fs s) vd" and n: "fs s vd = None"
    and ch: "fs s (vd @ [''scenes'']) = None" "fs s (vd @ [''images'']) = None"
      "fs s (vd @ [''audio'']) = None"
  shows "\<exists>t. fresh_dirs vd s = Ok () t
           \<and> trace t = trace s @ dir_events vd False
           \<and> fs t vd = Some Dir \<and> fs t (vd @ [''scenes'']) = Some Dir
           \<and> fs t (vd @ [''images'']) = Some Dir \<and> fs t (vd @ [''audio'']) = Some Dir
           \<and> (\<forall>q. fs s q \<noteq> None \<longrightarrow> fs t q = fs s q)"
proof -
  from makedirs_absent[OF c n] obtain s1 where
    s1: "makedirs vd False s = Ok () s1" "trace s1 = trace s @ [Makedirs vd]"
      "fs s1 vd = Some Dir" "\<forall>q. fs s q \<noteq> None \<longrightarrow> fs s1 q = fs s q"
      "\<forall>q. fs s1 q \<noteq> fs s q \<longrightarrow> fs s1 q = Some Dir \<and> prefix q vd"
    by blast
  note k1 = child_kept[OF s1(5)]
  have d1: "\<forall>q. fs s1 q \<noteq> fs s q \<longrightarrow> fs s1 q = Some Dir" using s1(5) by blast
  have n1: "fs s1 (vd @ [''scenes'']) = None" using k1 ch(1) by simp
  have c1: "creatable (fs s1) (vd @ [''scenes''])"
    by (rule creatable_child[OF c n1 d1])
  from makedirs_absent[OF c1 n1] obtain s2 where
    s2: "makedirs (vd @ [''scenes'']) False s1 = Ok () s2"
      "trace s2 = trace s1 @ [Makedirs (vd @ [''scenes''])]"
      "fs s2 (vd @ [''scenes'']) = Some Dir" "\<forall>q. fs s1 q \<noteq> None \<longrightarrow> fs s2 q = fs s1 q"
      "\<forall>q. fs s2 q \<noteq> fs s1 q \<longrightarrow> fs s2 q = Some Dir \<and> prefix q (vd @ [''scenes''])"
    by blast
  have d2: "\<forall>q. fs s2 q \<noteq> fs s q \<longrightarrow> fs s2 q = Some Dir"
    by (rule changed_Dir_trans[OF d1 s2(5)])
  have n2: "fs s2 (vd @ [''images'']) = None"
    using sibling_kept[OF s2(5), of "''images''"] k1 ch(2) by simp
  have c2: "creatable (fs s2) (vd @ [''images''])"
    by (rule creatable_child[OF c n2 d2])
  from makedirs_absent[OF c2 n2] obtain s3 where
    s3: "makedirs (vd @ [''images'']) False s2 = Ok () s3"
      "trace s3 = trace s2 @ [Makedirs (vd @ [''images''])]"
      "fs s3 (vd @ [''images'']) = Some Dir" "\<forall>q. fs s2 q \<noteq> None \<longrightarrow> fs s3 q = fs s2 q"
      "\<forall>q. fs s3 q \<noteq> fs s2 q \<longrightarrow> fs s3 q = Some Dir \<and> prefix q (vd @ [''images''])"
    by blast
  have d3: "\<forall>q. fs s3 q \<noteq> fs s q \<longrightarrow> fs s3 q = Some Dir"
    by (rule changed_Dir_trans[OF d2 s3(5)])
  have n3: "fs s3 (vd @ [''audio'']) = None"
    using sibling_kept[OF s3(5), of "''audio''"] sibling_kept[OF s2(5), of "''audio''"] k1 ch(3)
    by simp
  have c3: "creatable (fs s3) (vd @ [''audio''])"
    by (rule creatable_child[OF c n3 d3])
  from makedirs_absent[OF c3 n3] obtain s4 where
    s4: "makedirs (vd @ [''audio'']) False s3 = Ok () s4"
      "trace s4 = trace s3 @ [Makedirs (vd @ [''audio''])]"
      "fs s4 (vd @ [''audio'']) = Some Dir" "\<forall>q. fs s3 q \<noteq> None \<longrightarrow> fs s4 q = fs s3 q"
    by blast
  have run: "fresh_dirs vd s = Ok () s4"
    using n s1(1) s2(1) s3(1) s4(1)
    by (simp add: fresh_dirs_def Let_def then_do_def path_exists_def)
  have kept: "\<forall>q. fs s q \<noteq> None \<longrightarrow> fs s4 q = fs s q"
  proof (intro allI impI)
    fix q assume a: "fs s q \<noteq> None"
    have 1: "fs s1 q = fs s q" using s1(4) a by simp
    have 2: "fs s2 q = fs s1 q" using s2(4) a 1 by simp
    have 3: "fs s3 q = fs s2 q" using s3(4) a 1 2 by simp
    have 4: "fs s4 q = fs s3 q" using s4(4) a 1 2 3 by simp
    show "fs s4 q = fs s q" using 1 2 3 4 by simp
  qed
  have e1: "fs s2 vd = Some Dir" using s2(4) s1(3) by simp
  have e2: "fs s3 vd = Some Dir" "fs s3 (vd @ [''scenes'']) = Some Dir"
    using s3(4) e1 s2(3) by simp_all
  have e3: "fs s4 vd = Some Dir" "fs s4 (vd @ [''scenes'']) = Some Dir"
    "fs s4 (vd @ [''images'']) = Some Dir"
    using s4(4) e2 s3(3) by simp_all
  show ?thesis
    using run s1(2) s2(2) s3(2) s4(2,3) kept e3
    by (intro exI[of _ s4]) (simp add: dir_events_def)
qed

lemma keeps_refl: "reflp (keeps_outside d)"
  by (simp add: reflp_def keeps_outside_def)

lemma keeps_trans: "transp (keeps_outside d)"
  unfolding transp_def keeps_outside_def
proof (intro allI impI)
  fix x y z q
  assume a: "\<forall>q. \<not> prefix d q \<and> fs x q \<noteq> None \<longrightarrow> fs y q = fs x q"
    and b: "\<forall>q. \<not> prefix d q \<and> fs y q \<noteq> None \<longrightarrow> fs z q = fs y q"
    and c: "\<not> prefix d q \<and> fs x q \<noteq> None"
  have 1: "fs y q = fs x q" using a c by simp
  then have "fs z q = fs y q" using b c by simp
  then show "fs z q = fs x q" using 1 by simp
qed

lemma keeps_makedirs: "steps (keeps_outside d) (makedirs p b)"
  unfolding steps_def keeps_outside_def
  by (auto simp: makedirs_def split: option.splits node.splits)

lemma keeps_rmtree: "steps (keeps_outside d) (rmtree d)"
  unfolding steps_def keeps_outside_def
  by (auto simp: rmtree_def split: option.splits node.splits)

lemma keeps_write_artifact: "prefix d a \<Longrightarrow> steps (keeps_outside d) (write_artifact f a)"
  unfolding steps_def keeps_outside_def
  by (auto simp: write_artifact_def split: option.splits node.splits)

lemma keeps_video_to_audio: "prefix d a \<Longrightarrow> steps (keeps_outside d) (video_to_audio w f i a)"
  unfolding steps_def keeps_outside_def
  by (auto simp: video_to_audio_def write_artifact_def split: option.splits node.splits)

lemma keeps_save_images:
  "prefix d dir \<Longrightarrow> steps (keeps_outside d) (save_images w f scenes t dir)"
  unfolding save_images_def case_prod_unfold
  by (intro steps_for_each keeps_refl keeps_trans keeps_write_artifact) (simp add: prefix_prefix)

lemma keeps_split_video_ffmpeg:
  "prefix d dir \<Longrightarrow> steps (keeps_outside d) (split_video_ffmpeg w f scenes t dir)"
  unfolding split_video_ffmpeg_def case_prod_unfold
  by (intro steps_for_each keeps_refl keeps_trans keeps_write_artifact) (simp add: prefix_prefix)

lemma keeps_fresh_dirs: "steps (keeps_outside vd) (fresh_dirs vd)"
  unfolding fresh_dirs_def Let_def
  by (intro steps_then_do steps_if steps_for_each steps_Ok keeps_refl keeps_trans
      keeps_rmtree keeps_makedirs)

lemma keeps_scene_generator_start:
  "steps (keeps_outside (video_dir_of out f)) (scene_generator_start w inp f out)"
  unfolding scene_generator_start_def Let_def
  by (intro steps_then_do steps_Ok steps_from_world keeps_refl keeps_trans keeps_fresh_dirs
      keeps_save_images keeps_split_video_ffmpeg) simp_all

lemma keeps_scene_generator_next:
  "steps (keeps_outside (video_dir_of out f)) (scene_generator_next w f out x)"
  unfolding scene_generator_next_def Let_def case_prod_unfold
  by (intro steps_then_do steps_Ok keeps_refl keeps_trans keeps_video_to_audio) simp_all

lemma first_after:
  "list_all (\<lambda>e. \<not> P e) xs \<Longrightarrow> P x \<Longrightarrow> xs @ ys = pre @ x # post
     \<Longrightarrow> \<exists>zs. pre = xs @ zs \<and> ys = zs @ x # post"
proof (induction xs arbitrary: pre)
  case Nil
  then show ?case by simp
next
  case (Cons y xs)
  then show ?case by (cases pre) auto
qed

lemma none_of:
  "list_all (\<lambda>e. \<not> P e) xs \<Longrightarrow> P x \<Longrightarrow> xs \<noteq> pre @ x # post"
  by (auto simp: list_all_iff)

lemma no_artifact_dir_events: "list_all (\<lambda>e. \<not> is_artifact e) (dir_events vd b)"
  by (simp add: dir_events_def is_artifact_def)

lemma logs_fresh_dirs_dir: "steps (logs (\<lambda>e. \<not> is_artifact e)) (fresh_dirs vd)"
  unfolding fresh_dirs_def Let_def
  by (intro steps_then_do steps_if steps_for_each logs_trans logs_refl logs_rmtree logs_makedirs
      steps_Ok) (simp_all add: is_artifact_def)

lemma start_dirs_first:
  assumes "trace (final (scene_generator_start w inp f out s)) = trace s @ pre @ Artifact g a # post"
  shows "\<exists>zs. pre = dir_events (video_dir_of out f) (path_exists (video_dir_of out f) s) @ zs"
proof -
  let ?vd = "video_dir_of out f"
  let ?D = "dir_events ?vd (path_exists ?vd s)"
  let ?si = "\<lambda>scenes. save_images w f scenes [SCENE_NUMBER] (?vd @ [''images''])"
  let ?sv = "\<lambda>scenes. split_video_ffmpeg w f scenes [SCENE_NUMBER, Lit (snd (splitext f))]
                         (?vd @ [''scenes''])"
  have A: "is_artifact (Artifact g a)" by (simp add: is_artifact_def)
  have shape: "\<exists>zs. pre = ?D @ zs" if "pre @ Artifact g a # post = ?D @ rest" for rest
    using first_after[OF no_artifact_dir_events A that[symmetric]] by blast
  show ?thesis
  proof (cases "scene_generator_start w inp f out s")
    case (Ok scenes s')
    from scene_generator_start_Ok(2)[OF Ok] assms Ok
    have "pre @ Artifact g a # post
            = ?D @ (map (Artifact f) (scene_image_paths w out f (length scenes))
                   @ map (Artifact f) (scene_clip_paths w out f (length scenes)))"
      by simp
    then show ?thesis by (rule shape)
  next
    case (Raise e s')
    then have r: "then_do (from_world (detect_scenes w (inp @ [f]))) (\<lambda>scenes.
         then_do (fresh_dirs ?vd) (\<lambda>u. then_do (?si scenes) (\<lambda>u.
         then_do (?sv scenes) (\<lambda>u s. Ok scenes s)))) s = Raise e s'"
      by (simp add: scene_generator_start_def Let_def)
    have new: "trace s' = trace s @ pre @ Artifact g a # post" using assms Raise by simp
    have li: "\<exists>evs. trace (final (?si scenes t)) = trace t @ evs" for scenes t
      using logsD[OF logs_save_images, of "\<lambda>e. True"] by blast
    have lv: "\<exists>evs. trace (final (?sv scenes t)) = trace t @ evs" for scenes t
      using logsD[OF logs_split_video_ffmpeg, of "\<lambda>e. True"] by blast
    have lf: "\<exists>evs. trace (final (fresh_dirs ?vd s)) = trace s @ evs
                \<and> list_all (\<lambda>e. \<not> is_artifact e) evs"
      by (rule logsD[OF logs_fresh_dirs_dir])
    from r consider
      (a) "s' = s"
    | (b) "fresh_dirs ?vd s = Raise e s'"
    | (c) scenes s2 where "fresh_dirs ?vd s = Ok () s2" "?si scenes s2 = Raise e s'"
    | (d) scenes s2 s3 where "fresh_dirs ?vd s = Ok () s2" "?si scenes s2 = Ok () s3"
        "?sv scenes s3 = Raise e s'"
      by (auto simp: then_do_Raise from_world_def split: sum.splits)
    then show ?thesis
    proof cases
      case a
      then show ?thesis using new by simp
    next
      case b
      with lf obtain evs where
        evs: "trace s' = trace s @ evs" "list_all (\<lambda>e. \<not> is_artifact e) evs" by auto
      have "evs \<noteq> pre @ Artifact g a # post"
        by (rule none_of[where P = is_artifact, OF evs(2) A])
      then show ?thesis using evs(1) new by simp
    next
      case c
      from li[of scenes s2] c(2) obtain evs where "trace s' = trace s2 @ evs" by auto
      then have "pre @ Artifact g a # post = ?D @ evs"
        using fresh_dirs_Ok[OF c(1)] new by simp
      then show ?thesis by (rule shape)
    next
      case d
      from li[of scenes s2] d(2) obtain e1 where e1: "trace s3 = trace s2 @ e1" by auto
      from lv[of scenes s3] d(3) obtain e2 where "trace s' = trace s3 @ e2" by auto
      then have "pre @ Artifact g a # post = ?D @ (e1 @ e2)"
        using fresh_dirs_Ok[OF d(1)] new e1 by simp
      then show ?thesis by (rule shape)
    qed
  qed
qed

section \<open>A fresh directory for every video\<close>

text \<open>
  Claim C8. In transcribe.py, when the directory of the video exists (it and every
  directory above it being directories), lines 58 to 61 remove it with all it holds
  and make it anew with its scenes, images and audio directories: afterwards the file
  system is the old one without anything below the directory of the video, plus these
  four directories. When the directory does not exist it is simply made, with the
  missing directories above it, and nothing that existed is changed. In both cases the
  removal and the four creations come before every artifact that
  \<^verbatim>\<open>scene_generator\<close> writes, however the extraction ends, and neither the start
  of the generator nor a turn of its loop removes or changes a path that existed
  outside the directory of the video.
\<close>

theorem fresh_video_directory:
  "(dir_chain (fs s1) vd
     \<longrightarrow> (\<exists>t. fresh_dirs vd s1 = Ok () t
            \<and> trace t = trace s1 @ [Rmtree vd, Makedirs vd, Makedirs (vd @ [''scenes'']),
                                     Makedirs (vd @ [''images'']), Makedirs (vd @ [''audio''])]
            \<and> fs t = (\<lambda>q. if prefix vd q then None else fs s1 q)
                       (vd \<mapsto> Dir, vd @ [''scenes''] \<mapsto> Dir, vd @ [''images''] \<mapsto> Dir,
                        vd @ [''audio''] \<mapsto> Dir)))
   \<and> (creatable (fs s2) vd \<and> fs s2 vd = None \<and> fs s2 (vd @ [''scenes'']) = None
        \<and> fs s2 (vd @ [''images'']) = None \<and> fs s2 (vd @ [''audio'']) = None
     \<longrightarrow> (\<exists>t. fresh_dirs vd s2 = Ok () t
            \<and> trace t = trace s2 @ [Makedirs vd, Makedirs (vd @ [''scenes'']),
                                     Makedirs (vd @ [''images'']), Makedirs (vd @ [''audio''])]
            \<and> fs t vd = Some Dir \<and> fs t (vd @ [''scenes'']) = Some Dir
            \<and> fs t (vd @ [''images'']) = Some Dir \<and> fs t (vd @ [''audio'']) = Some Dir
            \<and> (\<forall>q. fs s2 q \<noteq> None \<longrightarrow> fs t q = fs s2 q)))
   \<and> (trace (final (scene_generator_start w input_folder f output_folder s3))
          = trace s3 @ pre @ Artifact g a # post
     \<longrightarrow> (\<exists>zs. pre = dir_events (video_dir_of output_folder f)
                         (path_exists (video_dir_of output_folder f) s3) @ zs))
   \<and> (\<not> prefix (video_dir_of output_folder f) q \<and> fs s3 q \<noteq> None
     \<longrightarrow> fs (final (scene_generator_start w input_folder f output_folder s3)) q = fs s3 q)
   \<and> (\<not> prefix (video_dir_of output_folder f) q' \<and> fs s4 q' \<noteq> None
     \<longrightarrow> fs (final (scene_generator_next w f output_folder x s4)) q' = fs s4 q')"
proof (intro conjI impI)
  assume "dir_chain (fs s1) vd"
  from fresh_dirs_existing[OF this]
  show "\<exists>t. fresh_dirs vd s1 = Ok () t
            \<and> trace t = trace s1 @ [Rmtree vd, Makedirs vd, Makedirs (vd @ [''scenes'']),
                                     Makedirs (vd @ [''images'']), Makedirs (vd @ [''audio''])]
            \<and> fs t = (\<lambda>q. if prefix vd q then None else fs s1 q)
                       (vd \<mapsto> Dir, vd @ [''scenes''] \<mapsto> Dir, vd @ [''images''] \<mapsto> Dir,
                        vd @ [''audio''] \<mapsto> Dir)"
    by (simp add: dir_events_def)
next
  assume "creatable (fs s2) vd \<and> fs s2 vd = None \<and> fs s2 (vd @ [''scenes'']) = None
        \<and> fs s2 (vd @ [''images'']) = None \<and> fs s2 (vd @ [''audio'']) = None"
  then have "\<exists>t. fresh_dirs vd s2 = Ok () t
           \<and> trace t = trace s2 @ dir_events vd False
           \<and> fs t vd = Some Dir \<and> fs t (vd @ [''scenes'']) = Some Dir
           \<and> fs t (vd @ [''images'']) = Some Dir \<and> fs t (vd @ [''audio'']) = Some Dir
           \<and> (\<forall>q. fs s2 q \<noteq> None \<longrightarrow> fs t q = fs s2 q)"
    by (intro fresh_dirs_absent) simp_all
  then show "\<exists>t. fresh_dirs vd s2 = Ok () t
            \<and> trace t = trace s2 @ [Makedirs vd, Makedirs (vd @ [''scenes'']),
                                     Makedirs (vd @ [''images'']), Makedirs (vd @ [''audio''])]
            \<and> fs t vd = Some Dir \<and> fs t (vd @ [''scenes'']) = Some Dir
            \<and> fs t (vd @ [''images'']) = Some Dir \<and> fs t (vd @ [''audio'']) = Some Dir
            \<and> (\<forall>q. fs s2 q \<noteq> None \<longrightarrow> fs t q = fs s2 q)"
    by (simp add: dir_events_def)
next
  assume "trace (final (scene_generator_start w input_folder f output_folder s3))
          = trace s3 @ pre @ Artifact g a # post"
  then show "\<exists>zs. pre = dir_events (video_dir_of output_folder f)
                         (path_exists (video_dir_of output_folder f) s3) @ zs"
    by (rule start_dirs_first)
next
  assume "\<not> prefix (video_dir_of output_folder f) q \<and> fs s3 q \<noteq> None"
  moreover have "keeps_outside (video_dir_of output_folder f) s3
                   (final (scene_generator_start w input_folder f output_folder s3))"
    by (rule stepsD[OF keeps_scene_generator_start])
  ultimately show "fs (final (scene_generator_start w input_folder f output_folder s3)) q = fs s3 q"
    by (simp add: keeps_outside_def)
next
  assume "\<not> prefix (video_dir_of output_folder f) q' \<and> fs s4 q' \<noteq> None"
  moreover have "keeps_outside (video_dir_of output_folder f) s4
                   (final (scene_generator_next w f output_folder x s4))"
    by (rule stepsD[OF keeps_scene_generator_next])
  ultimately show "fs (final (scene_generator_next w f output_folder x s4)) q' = fs s4 q'"
    by (simp add: keeps_outside_def)
qed

theorem fresh_video_directory_witness:
  "dir_chain (fs stale_state) [''out'', ''videos'', ''a'']
   \<and> fs stale_state [''out'', ''videos'', ''a'', ''old.jpg''] = Some MediaFile
   \<and> (\<exists>t. fresh_dirs [''out'', ''videos'', ''a''] stale_state = Ok () t
          \<and> fs t [''out'', ''videos'', ''a'', ''old.jpg''] = None
          \<and> fs t [''out'', ''videos'', ''a'', ''audio''] = Some Dir
          \<and> fs t [''out'', ''scenes.csv''] = Some (CsvFile [transcribe_header]))
   \<and> creatable (fs bare_folder_state) [''out'', ''videos'', ''a'']
   \<and> fs bare_folder_state [''out'', ''videos'', ''a''] = None
   \<and> (\<exists>t. fresh_dirs [''out'', ''videos'', ''a''] bare_folder_state = Ok () t
          \<and> fs t [''out'', ''videos'', ''a'', ''scenes''] = Some Dir
          \<and> fs t [''out''] = Some Dir)
   \<and> trace (final (scene_generator_start example_world [''vids''] ''a.mp4'' [''out''] stale_state))
       = trace stale_state
         @ dir_events [''out'', ''videos'', ''a''] True
         @ Artifact ''a.mp4'' [''out'', ''videos'', ''a'', ''images'', ''001.jpg'']
         # [Artifact ''a.mp4'' [''out'', ''videos'', ''a'', ''images'', ''002.jpg''],
            Artifact ''a.mp4'' [''out'', ''videos'', ''a'', ''scenes'', ''001.mp4''],
            Artifact ''a.mp4'' [''out'', ''videos'', ''a'', ''scenes'', ''002.mp4'']]
   \<and> \<not> prefix (video_dir_of [''out''] ''a.mp4'') [''out'', ''scenes.csv'']
   \<and> fs (final (scene_generator_start example_world [''vids''] ''a.mp4'' [''out''] stale_state))
        [''out'', ''scenes.csv''] = Some (CsvFile [transcribe_header])
   \<and> fs (final (scene_generator_next example_world ''a.mp4'' [''out'']
                  (0, FrameTimecode ''0.0'' ''00:00:00.000'', FrameTimecode ''1.0'' ''00:00:01.000'')
                  stale_state))
        [''out'', ''scenes.csv''] = Some (CsvFile [transcribe_header])"
proof -
  let ?vd = "[''out'', ''videos'', ''a'']"
  let ?x = "(0::nat, FrameTimecode ''0.0'' ''00:00:00.000'', FrameTimecode ''1.0'' ''00:00:01.000'')"
  have h1: "dir_chain (fs stale_state) ?vd"
    by (simp add: dir_chain_def stale_state_def)
  have h2: "creatable (fs bare_folder_state) ?vd
    \<and> fs bare_folder_state ?vd = None \<and> fs bare_folder_state (?vd @ [''scenes'']) = None
    \<and> fs bare_folder_state (?vd @ [''images'']) = None
    \<and> fs bare_folder_state (?vd @ [''audio'']) = None"
    by (simp add: creatable_def bare_folder_state_def)
  have h3: "trace (final (scene_generator_start example_world [''vids''] ''a.mp4'' [''out''] stale_state))
       = trace stale_state
         @ dir_events ?vd True
         @ Artifact ''a.mp4'' [''out'', ''videos'', ''a'', ''images'', ''001.jpg'']
         # [Artifact ''a.mp4'' [''out'', ''videos'', ''a'', ''images'', ''002.jpg''],
            Artifact ''a.mp4'' [''out'', ''videos'', ''a'', ''scenes'', ''001.mp4''],
            Artifact ''a.mp4'' [''out'', ''videos'', ''a'', ''scenes'', ''002.mp4'']]"
    by code_simp
  have h4: "\<not> prefix (video_dir_of [''out''] ''a.mp4'') [''out'', ''scenes.csv'']"
    by (simp add: video_dir_of_def)
  have h5: "fs stale_state [''out'', ''scenes.csv''] = Some (CsvFile [transcribe_header])"
    "fs stale_state [''out'', ''videos'', ''a'', ''old.jpg''] = Some MediaFile"
    "fs bare_folder_state [''out''] = Some Dir"
    by (simp_all add: stale_state_def bare_folder_state_def)
  from fresh_video_directory[of stale_state ?vd bare_folder_state example_world "[''vids'']"
      "''a.mp4''" "[''out'']" stale_state "dir_events ?vd True" "''a.mp4''"
      "[''out'', ''videos'', ''a'', ''images'', ''001.jpg'']"
      "[Artifact ''a.mp4'' [''out'', ''videos'', ''a'', ''images'', ''002.jpg''],
        Artifact ''a.mp4'' [''out'', ''videos'', ''a'', ''scenes'', ''001.mp4''],
        Artifact ''a.mp4'' [''out'', ''videos'', ''a'', ''scenes'', ''002.mp4'']]"
      "[''out'', ''scenes.csv'']" "[''out'', ''scenes.csv'']" stale_state ?x]
    h1 h2 h3 h4 h5
  show ?thesis by auto
qed

end
